theory Spec2Isabelle
  imports Complex_Main "HOL-Library.Word" "HOL-Library.Log_Nat"
begin

section \<open>JavaScript values\<close>

text \<open>
  A JavaScript string is a sequence of UTF-16 code units. Text that the sanitizer reads
  character by character is a \<open>jsstring\<close>; property names, storage keys and ids are
  plain \<open>string\<close>s. \<open>js\<close> turns a literal into code units.
\<close>

type_synonym jschar = "16 word"
type_synonym jsstring = "jschar list"

definition js :: "string \<Rightarrow> jsstring" where
  "js s = map of_char s"

text \<open>What \<open>JSON.parse\<close> returns and \<open>JSON.stringify\<close> accepts.\<close>

datatype json =
    JNull
  | JBool bool
  | JNum rat
  | JStr jsstring
  | JArr "json list"
  | JObj "(string \<times> json) list"

text \<open>Truthiness, as \<open>if (x)\<close>, \<open>x && y\<close> and \<open>x || y\<close> read a value.\<close>

fun truthy :: "json \<Rightarrow> bool" where
  "truthy JNull = False"
| "truthy (JBool b) = b"
| "truthy (JNum n) = (n \<noteq> 0)"
| "truthy (JStr s) = (s \<noteq> [])"
| "truthy (JArr _) = True"
| "truthy (JObj _) = True"

datatype js_error = SecurityError | QuotaExceededError | SyntaxError | TypeError | Error string

section \<open>Double-precision arithmetic\<close>

text \<open>
  JavaScript numbers are IEEE 754 doubles. A double is modelled by the rational it
  denotes, and every arithmetic operation rounds its exact result to the nearest double,
  ties to even (\<open>fl\<close>). The model covers the normal range (no overflow to Infinity, no
  subnormals), which is where lesson counts, ratings and millisecond timestamps live.
  \<open>Math.round\<close> and \<open>Math.floor\<close> are exact functions of a double.
\<close>

definition rne :: "rat \<Rightarrow> int" where
  "rne x = (let f = \<lfloor>x\<rfloor>; d = x - of_int f in
            if d < 1 / 2 then f else if 1 / 2 < d then f + 1
            else if even f then f else f + 1)"

text \<open>\<open>ilog2 x\<close> is the binary exponent of a positive \<open>x\<close>: \<open>2 ^ ilog2 x \<le> x < 2 ^ (ilog2 x + 1)\<close>.\<close>

definition ilog2 :: "rat \<Rightarrow> int" where
  "ilog2 x = (let k = bitlen (fst (quotient_of x)) - bitlen (snd (quotient_of x)) in
              if 2 powi k \<le> x then k else k - 1)"

definition fl :: "rat \<Rightarrow> rat" where
  "fl x = (if x = 0 then 0
           else let e = ilog2 \<bar>x\<bar> - 52 in of_int (rne (x / 2 powi e)) * 2 powi e)"

definition fadd :: "rat \<Rightarrow> rat \<Rightarrow> rat" where
  "fadd a b = fl (a + b)"

definition fmul :: "rat \<Rightarrow> rat \<Rightarrow> rat" where
  "fmul a b = fl (a * b)"

definition fdiv :: "rat \<Rightarrow> rat \<Rightarrow> rat" where
  "fdiv a b = fl (a / b)"

definition Math_round :: "rat \<Rightarrow> int" where
  "Math_round x = \<lfloor>x + 1 / 2\<rfloor>"

definition Math_floor :: "rat \<Rightarrow> int" where
  "Math_floor x = \<lfloor>x\<rfloor>"

section \<open>localStorage\<close>

text \<open>
  The text stored under a key is represented by what \<open>JSON.parse\<close> makes of it:
  \<open>JsonText v\<close> is the JSON text of the value \<open>v\<close> (what \<open>JSON.stringify v\<close> wrote),
  \<open>NotJson s\<close> is a text \<open>s\<close> that is not JSON, on which \<open>JSON.parse\<close> throws a
  SyntaxError; the empty string is \<open>NotJson []\<close>. \<open>getItem\<close> of an absent key is
  \<open>None\<close> (null).

  The three keys of the progress ledger hold values of their own shapes; every other
  key (courses, the migration version, the backups) is looked up by name in \<open>entries\<close>.
  A storage the browser denies (\<open>available = False\<close>) throws on every access, and
  \<open>setItem\<close> throws QuotaExceededError when the browser's quota (a predicate on the
  contents the write would leave) is exceeded.
\<close>

datatype 'a item = NotJson string | JsonText 'a

type_synonym entry = "string \<rightharpoonup> json"
type_synonym progress = "string \<rightharpoonup> entry"

record streak =
  currentStreak :: int
  longestStreak :: int
  lastActivity :: "string option"
  activityDates :: "string list option"

record storage =
  available :: bool
  course_progress :: "progress item option"
  course_bookmarks :: "string list item option"
  learning_streak :: "streak item option"
  entries :: "string \<rightharpoonup> json item"

type_synonym quota = "storage \<Rightarrow> bool"

definition getItem :: "(storage \<Rightarrow> 'a) \<Rightarrow> storage \<Rightarrow> js_error + 'a" where
  "getItem slot st = (if available st then Inr (slot st) else Inl SecurityError)"

definition setItem :: "quota \<Rightarrow> (storage \<Rightarrow> storage) \<Rightarrow> storage \<Rightarrow> js_error + storage" where
  "setItem q put st =
     (if \<not> available st then Inl SecurityError
      else if q (put st) then Inr (put st) else Inl QuotaExceededError)"

definition removeItem :: "(storage \<Rightarrow> storage) \<Rightarrow> storage \<Rightarrow> js_error + storage" where
  "removeItem del st = (if available st then Inr (del st) else Inl SecurityError)"

text \<open>\<open>stored ? JSON.parse(stored) : d\<close>: null and the empty string are falsy.\<close>

definition parse_or :: "'a \<Rightarrow> 'a item option \<Rightarrow> js_error + 'a" where
  "parse_or d stored =
     (case stored of
        None \<Rightarrow> Inr d
      | Some (NotJson s) \<Rightarrow> (if s = [] then Inr d else Inl SyntaxError)
      | Some (JsonText v) \<Rightarrow> Inr v)"

section \<open>Progress ledger (progressTracking.js)\<close>

definition loadProgressFromStorage :: "storage \<Rightarrow> progress" where
  "loadProgressFromStorage st =
     (case getItem course_progress st of
        Inl e \<Rightarrow> Map.empty
      | Inr stored \<Rightarrow>
          (case parse_or Map.empty stored of
             Inl e \<Rightarrow> Map.empty
           | Inr p \<Rightarrow> p))"

definition saveProgressToStorage :: "quota \<Rightarrow> storage \<Rightarrow> progress \<Rightarrow> bool \<times> storage" where
  "saveProgressToStorage q st p =
     (case setItem q (\<lambda>s. s\<lparr>course_progress := Some (JsonText p)\<rparr>) st of
        Inl e \<Rightarrow> (False, st)
      | Inr st' \<Rightarrow> (True, st'))"

definition getLessonProgress :: "storage \<Rightarrow> string \<Rightarrow> entry option" where
  "getLessonProgress st lessonId = loadProgressFromStorage st lessonId"

text \<open>
  The ledger is the map of the own properties of the parsed object. \<open>progress[id]\<close> on a
  key the ledger does not own reaches \<open>Object.prototype\<close>: it yields a function, or the
  prototype object itself for \<open>__proto__\<close>, none of which has a property \<open>completed\<close>.
  The value is only ever tested by \<open>lessonProgress && lessonProgress.completed\<close>, where
  such a value behaves like \<open>null\<close>; a record is an object, so truthy.
\<close>

definition is_completed :: "entry option \<Rightarrow> bool" where
  "is_completed r =
     (case r of
        None \<Rightarrow> False
      | Some e \<Rightarrow> (case e ''completed'' of None \<Rightarrow> False | Some v \<Rightarrow> truthy v))"

subsection \<open>Learning streak\<close>

text \<open>
  A date string is what \<open>toDateString()\<close> printed; \<open>ms\<close> is the timestamp that
  \<open>new Date(s)\<close> reads back from it (the activity dates are only ever written by
  \<open>updateLearningStreak\<close>, so every one of them is a valid date). \<open>today\<close> is
  \<open>new Date().toDateString()\<close> at the time of the call.
\<close>

definition dayDiff :: "int \<Rightarrow> int \<Rightarrow> int" where
  "dayDiff a b = Math_floor (fdiv (of_int (a - b)) (1000 * 60 * 60 * 24))"

fun consecutive_days :: "int list \<Rightarrow> int" where
  "consecutive_days (a # b # rest) =
     (if dayDiff a b = 1 then 1 + consecutive_days (b # rest) else 1)"
| "consecutive_days _ = 1"

definition streak_error :: streak where
  "streak_error = \<lparr>currentStreak = 0, longestStreak = 0, lastActivity = None, activityDates = None\<rparr>"

definition streak_default :: streak where
  "streak_default = \<lparr>currentStreak = 0, longestStreak = 0, lastActivity = None, activityDates = Some []\<rparr>"

definition updateLearningStreak :: "quota \<Rightarrow> (string \<Rightarrow> int) \<Rightarrow> string \<Rightarrow> storage \<Rightarrow> streak \<times> storage" where
  "updateLearningStreak q ms today st =
     (case getItem learning_streak st of
        Inl e \<Rightarrow> (streak_error, st)
      | Inr stored \<Rightarrow>
          (case parse_or streak_default stored of
             Inl e \<Rightarrow> (streak_error, st)
           | Inr streakData \<Rightarrow>
               (case activityDates streakData of
                  None \<Rightarrow> (streak_error, st)
                | Some dates \<Rightarrow>
                    if today \<in> set dates then (streakData, st)
                    else
                      let dates' = dates @ [today];
                          sortedDates = rev (sort (map ms dates'));
                          cur = consecutive_days sortedDates;
                          streakData' = \<lparr>currentStreak = cur,
                                         longestStreak = max (longestStreak streakData) cur,
                                         lastActivity = Some today,
                                         activityDates = Some dates'\<rparr>
                      in (case setItem q (\<lambda>s. s\<lparr>learning_streak := Some (JsonText streakData')\<rparr>) st of
                            Inl e \<Rightarrow> (streak_error, st)
                          | Inr st' \<Rightarrow> (streakData', st')))))"

text \<open>Calling \<open>updateLearningStreak\<close> \<open>n\<close> times in a row on the same day.\<close>

fun update_times :: "nat \<Rightarrow> quota \<Rightarrow> (string \<Rightarrow> int) \<Rightarrow> string \<Rightarrow> storage \<Rightarrow> streak \<times> storage" where
  "update_times 0 q ms today st = updateLearningStreak q ms today st"
| "update_times (Suc n) q ms today st =
     updateLearningStreak q ms today (snd (update_times n q ms today st))"

subsection \<open>Bookmarks and streak loaders\<close>

text \<open>
  Like \<open>loadProgressFromStorage\<close>, the two loaders read one key and only return a value:
  their \<open>catch\<close> branches log and return, and contain no write to the storage.
  \<open>getLearningStreak\<close> returns an object without \<open>activityDates\<close> from its \<open>catch\<close> branch.
\<close>

definition loadBookmarkedCourses :: "storage \<Rightarrow> string list" where
  "loadBookmarkedCourses st =
     (case getItem course_bookmarks st of
        Inl e \<Rightarrow> []
      | Inr stored \<Rightarrow>
          (case parse_or [] stored of
             Inl e \<Rightarrow> []
           | Inr bookmarks \<Rightarrow> bookmarks))"

definition getLearningStreak :: "storage \<Rightarrow> streak" where
  "getLearningStreak st =
     (case getItem learning_streak st of
        Inl e \<Rightarrow> streak_error
      | Inr stored \<Rightarrow>
          (case parse_or streak_default stored of
             Inl e \<Rightarrow> streak_error
           | Inr streakData \<Rightarrow> streakData))"

subsection \<open>Lesson completion\<close>

text \<open>\<open>{completed: true, completedAt: now, ...additionalData}\<close>: later keys win.\<close>

definition completed_record :: "jsstring \<Rightarrow> entry \<Rightarrow> entry" where
  "completed_record now additionalData =
     [''completed'' \<mapsto> JBool True, ''completedAt'' \<mapsto> JStr now] ++ additionalData"

text \<open>
  \<open>progress[lessonId] = {...}\<close> writes an own property, except for the key \<open>__proto__\<close>
  on a ledger that does not own it: there the assignment reaches the setter of
  \<open>Object.prototype\<close>, which replaces the ledger's prototype and adds no property, so
  \<open>JSON.stringify\<close> prints the ledger as it was loaded.
\<close>

definition assign_record :: "progress \<Rightarrow> string \<Rightarrow> entry \<Rightarrow> progress" where
  "assign_record progress lessonId r =
     (if lessonId = ''__proto__'' \<and> progress lessonId = None then progress
      else progress(lessonId \<mapsto> r))"

definition markLessonCompleted ::
  "quota \<Rightarrow> (string \<Rightarrow> int) \<Rightarrow> string \<Rightarrow> jsstring \<Rightarrow> storage \<Rightarrow> string \<Rightarrow> entry \<Rightarrow> bool \<times> storage" where
  "markLessonCompleted q ms today now st lessonId additionalData =
     (let progress = loadProgressFromStorage st;
          progress' = assign_record progress lessonId (completed_record now additionalData);
          st1 = snd (updateLearningStreak q ms today st)
      in saveProgressToStorage q st1 progress')"

definition markLessonIncomplete :: "quota \<Rightarrow> storage \<Rightarrow> string \<Rightarrow> bool \<times> storage" where
  "markLessonIncomplete q st lessonId =
     (let progress = loadProgressFromStorage st
      in saveProgressToStorage q st (progress(lessonId := None)))"

definition toggleLessonCompletion ::
  "quota \<Rightarrow> (string \<Rightarrow> int) \<Rightarrow> string \<Rightarrow> jsstring \<Rightarrow> storage \<Rightarrow> string \<Rightarrow> entry \<Rightarrow> bool \<times> storage" where
  "toggleLessonCompletion q ms today now st lessonId additionalData =
     (if is_completed (getLessonProgress st lessonId)
      then (False, snd (markLessonIncomplete q st lessonId))
      else (True, snd (markLessonCompleted q ms today now st lessonId additionalData)))"

text \<open>Two toggles of the same lesson, one after the other.\<close>

definition toggled_twice ::
  "quota \<Rightarrow> (string \<Rightarrow> int) \<Rightarrow> string \<Rightarrow> jsstring \<Rightarrow> jsstring \<Rightarrow> storage \<Rightarrow> string \<Rightarrow> entry \<Rightarrow> entry \<Rightarrow> storage" where
  "toggled_twice q ms today now1 now2 st lessonId md1 md2 =
     snd (toggleLessonCompletion q ms today now2
            (snd (toggleLessonCompletion q ms today now1 st lessonId md1)) lessonId md2)"

text \<open>
  Whether the write of a toggle was accepted: the boolean that \<open>markLessonCompleted\<close> and
  \<open>markLessonIncomplete\<close> return and \<open>toggleLessonCompletion\<close> drops. It is false when the
  storage is denied or the quota refuses the new ledger.
\<close>

definition toggle_saved ::
  "quota \<Rightarrow> (string \<Rightarrow> int) \<Rightarrow> string \<Rightarrow> jsstring \<Rightarrow> storage \<Rightarrow> string \<Rightarrow> entry \<Rightarrow> bool" where
  "toggle_saved q ms today now st lessonId additionalData =
     (if is_completed (getLessonProgress st lessonId)
      then fst (markLessonIncomplete q st lessonId)
      else fst (markLessonCompleted q ms today now st lessonId additionalData))"

definition both_saved ::
  "quota \<Rightarrow> (string \<Rightarrow> int) \<Rightarrow> string \<Rightarrow> jsstring \<Rightarrow> jsstring \<Rightarrow> storage \<Rightarrow> string \<Rightarrow> entry \<Rightarrow> entry \<Rightarrow> bool" where
  "both_saved q ms today now1 now2 st lessonId md1 md2 =
     (toggle_saved q ms today now1 st lessonId md1 \<and>
      toggle_saved q ms today now2
        (snd (toggleLessonCompletion q ms today now1 st lessonId md1)) lessonId md2)"

text \<open>The caller's metadata does not overwrite \<open>completed\<close> with a falsy value.\<close>

definition keeps_completed :: "entry \<Rightarrow> bool" where
  "keeps_completed additionalData =
     (case additionalData ''completed'' of None \<Rightarrow> True | Some v \<Rightarrow> truthy v)"

definition record_field :: "progress \<Rightarrow> string \<Rightarrow> string \<Rightarrow> json option" where
  "record_field p lessonId k = (case p lessonId of None \<Rightarrow> None | Some e \<Rightarrow> e k)"

subsection \<open>Course progress\<close>

text \<open>
  The part of a course that progress and analytics read. \<open>sections\<close> and \<open>lessons\<close>
  may be missing (the code tests \<open>!course.sections\<close> and \<open>!section.lessons\<close>), and so
  may \<open>rating\<close> and \<open>enrolledStudents\<close>. A course argument that is null is \<open>None\<close>.
  The counters are JavaScript numbers that only ever hold whole values, exact as doubles
  below \<open>2 ^ 53\<close>.
\<close>

record lesson =
  lesson_id :: string

record course_section =
  lessons :: "lesson list option"

record course =
  course_id :: string
  status :: string
  enrolledStudents :: "rat option"
  rating :: "rat option"
  sections :: "course_section list option"

record course_stats =
  totalLessons :: nat
  completedLessons :: nat
  completionPercentage :: int
  completedSections :: nat
  totalSections :: nat

text \<open>
  The inner \<open>forEach\<close>: the state is (totalLessons, completedLessons, sectionCompleted),
  written (nl, nc, sectionCompleted).
\<close>

fun lesson_step :: "progress \<Rightarrow> nat \<times> nat \<times> nat \<Rightarrow> lesson \<Rightarrow> nat \<times> nat \<times> nat" where
  "lesson_step progress (nl, nc, sectionCompleted) l =
     (if is_completed (progress (lesson_id l))
      then (nl + 1, nc + 1, sectionCompleted + 1)
      else (nl + 1, nc, sectionCompleted))"

text \<open>
  The outer \<open>forEach\<close>: the state is (totalLessons, completedLessons, completedSections),
  written (nl, nc, ns).
\<close>

fun section_step :: "progress \<Rightarrow> nat \<times> nat \<times> nat \<Rightarrow> course_section \<Rightarrow> nat \<times> nat \<times> nat" where
  "section_step progress (nl, nc, ns) s =
     (case lessons s of
        None \<Rightarrow> (nl, nc, ns)
      | Some ls \<Rightarrow>
          (let sectionLessons = length ls in
           case foldl (lesson_step progress) (nl, nc, 0) ls of
             (nl', nc', sectionCompleted) \<Rightarrow>
               (nl', nc',
                if sectionLessons > 0 \<and> sectionCompleted = sectionLessons
                then ns + 1 else ns)))"

definition no_progress :: course_stats where
  "no_progress = \<lparr>totalLessons = 0, completedLessons = 0, completionPercentage = 0,
                   completedSections = 0, totalSections = 0\<rparr>"

definition calculateCourseProgress :: "storage \<Rightarrow> course option \<Rightarrow> course_stats" where
  "calculateCourseProgress st course =
     (case course of
        None \<Rightarrow> no_progress
      | Some c \<Rightarrow>
          (case sections c of
             None \<Rightarrow> no_progress
           | Some ss \<Rightarrow>
               (let progress = loadProgressFromStorage st in
                case foldl (section_step progress) (0, 0, 0) ss of
                  (nl, nc, doneSections) \<Rightarrow>
                    \<lparr>totalLessons = nl,
                     completedLessons = nc,
                     completionPercentage =
                       (if nl > 0
                        then Math_round (fmul (fdiv (of_nat nc) (of_nat nl)) 100)
                        else 0),
                     completedSections = doneSections,
                     totalSections = length ss\<rparr>)))"

text \<open>What the claims say about a course, in their own words.\<close>

definition lessons_of :: "course_section \<Rightarrow> lesson list" where
  "lessons_of s = (case lessons s of None \<Rightarrow> [] | Some ls \<Rightarrow> ls)"

definition lesson_done :: "storage \<Rightarrow> lesson \<Rightarrow> bool" where
  "lesson_done st l = is_completed (loadProgressFromStorage st (lesson_id l))"

definition every_lesson_done :: "storage \<Rightarrow> course_section \<Rightarrow> bool" where
  "every_lesson_done st s = list_all (lesson_done st) (lessons_of s)"

definition exact_percentage :: "nat \<Rightarrow> nat \<Rightarrow> int" where
  "exact_percentage c t = \<lfloor>100 * (of_nat c / of_nat t :: rat) + 1 / 2\<rfloor>"

text \<open>The sections and lessons of a course argument, none when it is null or has no sections.\<close>

definition sections_of :: "course option \<Rightarrow> course_section list" where
  "sections_of course =
     (case course of
        None \<Rightarrow> []
      | Some c \<Rightarrow> (case sections c of None \<Rightarrow> [] | Some ss \<Rightarrow> ss))"

definition all_lessons :: "course option \<Rightarrow> lesson list" where
  "all_lessons course = concat (map lessons_of (sections_of course))"

text \<open>\<open>100 * c / t\<close> lies exactly halfway between two whole numbers.\<close>

definition half_way :: "nat \<Rightarrow> nat \<Rightarrow> bool" where
  "half_way c t = ((200 * c + t) mod (2 * t) = 0)"

section \<open>Analytics (analytics.js)\<close>

text \<open>
  The numeric part of \<open>calculateCourseAnalytics\<close>. Its argument is \<open>None\<close> when it is
  not an array. The category and difficulty histograms, the recent, top-rated and
  most-popular lists and the completion statistics are computed independently of these
  fields and are not modelled. \<open>totalSections\<close> and \<open>totalLessons\<close> of the source are
  \<open>totalSections_all\<close> and \<open>totalLessons_all\<close> here.
\<close>

record analytics =
  totalCourses :: nat
  publishedCourses :: nat
  draftCourses :: nat
  archivedCourses :: nat
  totalStudents :: rat
  averageRating :: rat
  totalSections_all :: nat
  totalLessons_all :: nat

text \<open>\<open>x || 0\<close> on a number that may be missing.\<close>

definition or0 :: "rat option \<Rightarrow> rat" where
  "or0 x = (case x of None \<Rightarrow> 0 | Some r \<Rightarrow> (if r = 0 then 0 else r))"

definition calculateCourseAnalytics :: "course list option \<Rightarrow> analytics" where
  "calculateCourseAnalytics courses =
     (let safeCourses = (case courses of None \<Rightarrow> [] | Some cs \<Rightarrow> cs) in
      if length safeCourses = 0
      then \<lparr>totalCourses = 0, publishedCourses = 0, draftCourses = 0, archivedCourses = 0,
            totalStudents = 0, averageRating = 0, totalSections_all = 0, totalLessons_all = 0\<rparr>
      else
        let n = length safeCourses;
            totalRatings = foldl (\<lambda>sum c. fadd sum (or0 (rating c))) 0 safeCourses;
            average = (if n > 0 then fdiv totalRatings (of_nat n) else 0)
        in \<lparr>totalCourses = n,
            publishedCourses = length (filter (\<lambda>c. status c = ''published'') safeCourses),
            draftCourses = length (filter (\<lambda>c. status c = ''draft'') safeCourses),
            archivedCourses = length (filter (\<lambda>c. status c = ''archived'') safeCourses),
            totalStudents = foldl (\<lambda>sum c. fadd sum (or0 (enrolledStudents c))) 0 safeCourses,
            averageRating = fdiv (of_int (Math_round (fmul average 10))) 10,
            totalSections_all =
              foldl (\<lambda>sum c. sum + (case sections c of None \<Rightarrow> 0 | Some ss \<Rightarrow> length ss))
                0 safeCourses,
            totalLessons_all =
              foldl (\<lambda>sum c.
                       case sections c of
                         None \<Rightarrow> sum
                       | Some ss \<Rightarrow>
                           sum + foldl (\<lambda>sectionSum s.
                                   sectionSum + (case lessons s of None \<Rightarrow> 0 | Some ls \<Rightarrow> length ls))
                                 0 ss)
                0 safeCourses\<rparr>)"

text \<open>
  The claim's words, in exact arithmetic: the ratings with a missing one as 0, their mean,
  and the nearest multiple of one tenth (halves up). \<open>half_distance x\<close> is how far \<open>x\<close> is
  from the nearest number halfway between two integers, and \<open>rounding_margin n x\<close> bounds
  the error that the \<open>n\<close> additions, the division and the multiplication by 10 can
  accumulate on the way to \<open>x\<close>.
\<close>

definition rating_or_zero :: "course \<Rightarrow> rat" where
  "rating_or_zero c = (case rating c of None \<Rightarrow> 0 | Some r \<Rightarrow> r)"

definition exact_mean :: "rat list \<Rightarrow> rat" where
  "exact_mean xs = sum_list xs / of_nat (length xs)"

definition nearest_tenth :: "rat \<Rightarrow> rat" where
  "nearest_tenth x = of_int \<lfloor>10 * x + 1 / 2\<rfloor> / 10"

definition half_distance :: "rat \<Rightarrow> rat" where
  "half_distance x = \<bar>x - of_int \<lfloor>x\<rfloor> - 1 / 2\<bar>"

definition rounding_margin :: "nat \<Rightarrow> rat \<Rightarrow> rat" where
  "rounding_margin n x = x * of_nat (n + 2) / 2 ^ 52"

section \<open>HTML sanitizer (htmlSanitizer.js)\<close>

definition LT :: jschar where "LT = of_char CHR ''<''"
definition GT :: jschar where "GT = of_char CHR ''>''"
definition AMP :: jschar where "AMP = of_char CHR ''&''"
definition SP :: jschar where "SP = of_char CHR '' ''"
definition NL :: jschar where "NL = 10"

text \<open>
  The class \<open>\s\<close> of a JavaScript regular expression, which is also what \<open>trim\<close>
  removes: tab, line feed, vertical tab, form feed, carriage return, space, no-break
  space, U+1680, U+2000 to U+200A, U+2028, U+2029, U+202F, U+205F, U+3000 and U+FEFF.
\<close>

definition is_space :: "jschar \<Rightarrow> bool" where
  "is_space c =
     (c \<in> set [9, 10, 11, 12, 13, 32, 160, 5760, 8232, 8233, 8239, 8287, 12288, 65279]
      \<or> (8192 \<le> c \<and> c \<le> 8202))"

text \<open>
  \<open>.replace(/<[^>]*>/g, '')\<close>: the pattern matches at a \<open><\<close> that has a \<open>>\<close> somewhere
  after it and runs to the first such \<open>>\<close>; the scan goes on behind the match.
\<close>

function removeTags :: "jsstring \<Rightarrow> jsstring" where
  "removeTags [] = []"
| "removeTags (c # cs) =
     (if c = LT \<and> GT \<in> set cs
      then removeTags (tl (dropWhile (\<lambda>x. x \<noteq> GT) cs))
      else c # removeTags cs)"
  by pat_completeness auto
termination
proof (relation "measure length")
  show "wf (measure length)" by simp
next
  fix c :: jschar and cs :: jsstring
  have "length (tl (dropWhile (\<lambda>x. x \<noteq> GT) cs)) \<le> length cs"
    using length_dropWhile_le[of "\<lambda>x. x \<noteq> GT" cs] by simp
  then show "(tl (dropWhile (\<lambda>x. x \<noteq> GT) cs), c # cs) \<in> measure length" by simp
next
  fix c :: jschar and cs :: jsstring
  show "(cs, c # cs) \<in> measure length" by simp
qed

text \<open>\<open>.replace(/pat/g, rep)\<close> for a pattern that is a literal text.\<close>

function replaceAll :: "jsstring \<Rightarrow> jsstring \<Rightarrow> jsstring \<Rightarrow> jsstring" where
  "replaceAll pat rep [] = []"
| "replaceAll pat rep (c # cs) =
     (if pat \<noteq> [] \<and> take (length pat) (c # cs) = pat
      then rep @ replaceAll pat rep (drop (length pat) (c # cs))
      else c # replaceAll pat rep cs)"
  by pat_completeness auto
termination
  by (relation "measure (\<lambda>(pat, rep, s). length s)") auto

text \<open>\<open>.replace(/\s+/g, ' ')\<close>: every maximal run of whitespace becomes one space.\<close>

function collapse_ws :: "jsstring \<Rightarrow> jsstring" where
  "collapse_ws [] = []"
| "collapse_ws (c # cs) =
     (if is_space c then SP # collapse_ws (dropWhile is_space cs) else c # collapse_ws cs)"
  by pat_completeness auto
termination
proof (relation "measure length")
  show "wf (measure length)" by simp
next
  fix c :: jschar and cs :: jsstring
  show "(dropWhile is_space cs, c # cs) \<in> measure length"
    using length_dropWhile_le[of is_space cs] by simp
next
  fix c :: jschar and cs :: jsstring
  show "(cs, c # cs) \<in> measure length" by simp
qed

text \<open>
  \<open>.replace(/\n\s*\n/g, '\n')\<close>: at a line feed, \<open>\s*\<close> takes the whole run of
  whitespace behind it and gives back up to the last line feed of that run; without a
  line feed in the run there is no match at this position.
\<close>

definition last_NL :: "jsstring \<Rightarrow> nat" where
  "last_NL w = length w - length (takeWhile (\<lambda>x. x \<noteq> NL) (rev w))"

function blank_lines :: "jsstring \<Rightarrow> jsstring" where
  "blank_lines [] = []"
| "blank_lines (c # cs) =
     (if c = NL \<and> NL \<in> set (takeWhile is_space cs)
      then NL # blank_lines (drop (last_NL (takeWhile is_space cs)) cs)
      else c # blank_lines cs)"
  by pat_completeness auto
termination
  by (relation "measure length") auto

definition trim :: "jsstring \<Rightarrow> jsstring" where
  "trim s = rev (dropWhile is_space (rev (dropWhile is_space s)))"

text \<open>
  The DOM is the browser's, not the repository's: \<open>textContent s\<close> is the text that
  \<open>tempDiv.textContent || tempDiv.innerText || ''\<close> yields after
  \<open>tempDiv.innerHTML = s\<close>, and \<open>None\<close> when creating or filling the element throws
  (where \<open>document\<close> does not exist, for one). The argument is a string; a value of
  another type gives the empty string, as the empty string does.
\<close>

definition regex_fallback :: "jsstring \<Rightarrow> jsstring" where
  "regex_fallback htmlString =
     trim (collapse_ws
       (replaceAll (js ''&#39;'') (js [CHR 0x27])
       (replaceAll (js ''&quot;'') (js [CHR 0x22])
       (replaceAll (js ''&gt;'') (js ''>'')
       (replaceAll (js ''&lt;'') (js ''<'')
       (replaceAll (js ''&amp;'') (js ''&'')
       (replaceAll (js ''&nbsp;'') (js '' '')
       (removeTags htmlString))))))))"

type_synonym dom_text = "jsstring \<Rightarrow> jsstring option"

definition stripHtmlTags :: "dom_text \<Rightarrow> jsstring \<Rightarrow> jsstring" where
  "stripHtmlTags textContent htmlString =
     (if htmlString = [] then []
      else case textContent htmlString of
             Some plainText \<Rightarrow> trim (blank_lines (collapse_ws plainText))
           | None \<Rightarrow> regex_fallback htmlString)"

text \<open>\<open>containsHtmlTags\<close>: \<open>/<[^>]*>/.test(content)\<close>, a \<open><\<close> with a \<open>>\<close> after it.\<close>

fun containsHtmlTags :: "jsstring \<Rightarrow> bool" where
  "containsHtmlTags [] = False"
| "containsHtmlTags (c # cs) = ((c = LT \<and> GT \<in> set cs) \<or> containsHtmlTags cs)"

text \<open>An environment without a DOM: the first path of \<open>stripHtmlTags\<close> always throws.\<close>

definition no_dom :: dom_text where
  "no_dom s = None"

text \<open>
  A text as \<open>.replace(/\s+/g, ' ')\<close> leaves it: the only whitespace is the space, and no
  space is followed by whitespace.
\<close>

fun spaced :: "jsstring \<Rightarrow> bool" where
  "spaced [] = True"
| "spaced (c # cs) =
     ((is_space c \<longrightarrow> c = SP \<and> (cs = [] \<or> \<not> is_space (hd cs))) \<and> spaced cs)"

text \<open>
  \<open>occurs pat s\<close>: the text \<open>pat\<close> is a part of \<open>s\<close>. The entity references that the
  fallback decodes, in the order of its \<open>replace\<close> calls, each with its replacement, and
  the decoding as the fold of these calls. \<open>after_amp s\<close> is the text of the fallback after
  the tags are removed and \<open>&nbsp;\<close> and \<open>&amp;\<close> are decoded, before \<open>&lt;\<close> and
  \<open>&gt;\<close> are.
\<close>

fun occurs :: "jsstring \<Rightarrow> jsstring \<Rightarrow> bool" where
  "occurs pat [] = (pat = [])"
| "occurs pat (c # cs) = (take (length pat) (c # cs) = pat \<or> occurs pat cs)"

definition entities :: "(jsstring \<times> jsstring) list" where
  "entities =
     [(js ''&nbsp;'', js '' ''), (js ''&amp;'', js ''&''), (js ''&lt;'', js ''<''),
      (js ''&gt;'', js ''>''), (js ''&quot;'', js [CHR 0x22]), (js ''&#39;'', js [CHR 0x27])]"

definition holds_entity :: "jsstring \<Rightarrow> bool" where
  "holds_entity t = list_ex (\<lambda>e. occurs (fst e) t) entities"

definition decode_entities :: "jsstring \<Rightarrow> jsstring" where
  "decode_entities t = fold (\<lambda>e. replaceAll (fst e) (snd e)) entities t"


section \<open>Course sanitizer (htmlSanitizer.js)\<close>

subsection \<open>Objects and arrays\<close>

text \<open>
  \<open>sanitizeCourseForStorage\<close> copies its argument before it assigns to it, and what the
  copy protects is the caller's object. So objects live in a heap: a value is a primitive
  or a reference, an object is a list of properties in insertion order (with distinct
  keys) or an array, and the heap is the list of all objects allocated so far, an object's
  address being its position. A course holds strings, numbers, booleans, \<open>null\<close>, arrays
  and plain objects; \<open>undefined\<close>, functions and objects with a \<open>toJSON\<close> method are not
  represented.
\<close>

type_synonym addr = nat

datatype val = Null | Bool bool | Num rat | Str jsstring | Ref addr

datatype obj = Object "(string \<times> val) list" | Array "val list"

type_synonym heap = "obj list"

text \<open>
  \<open>JSON.stringify\<close> walks the object graph with the stack of the objects it is inside;
  meeting one of them again is the \<open>TypeError\<close> for a cyclic structure, here \<open>None\<close>.
  An object reachable along two paths is written twice.
\<close>

function to_json :: "addr list \<Rightarrow> heap \<Rightarrow> val \<Rightarrow> json option" where
  "to_json stack h Null = Some JNull"
| "to_json stack h (Bool b) = Some (JBool b)"
| "to_json stack h (Num n) = Some (JNum n)"
| "to_json stack h (Str s) = Some (JStr s)"
| "to_json stack h (Ref a) =
     (if a \<in> set stack \<or> \<not> a < length h then None
      else case h ! a of
             Array vs \<Rightarrow> map_option JArr (those (map (to_json (a # stack) h) vs))
           | Object fs \<Rightarrow>
               map_option JObj
                 (those (map (\<lambda>kv. map_option (Pair (fst kv)) (to_json (a # stack) h (snd kv))) fs)))"
  by pat_completeness auto
termination
  by (relation "inv_image finite_psubset (\<lambda>(stack, h, v). {..<length h} - set stack)") auto

text \<open>
  \<open>JSON.parse\<close> allocates a new object for every array and object of the text, the
  members first, in the order of the text.
\<close>

fun build :: "json \<Rightarrow> heap \<Rightarrow> val \<times> heap" where
  "build JNull h = (Null, h)"
| "build (JBool b) h = (Bool b, h)"
| "build (JNum n) h = (Num n, h)"
| "build (JStr s) h = (Str s, h)"
| "build (JArr items) h =
     (case fold (\<lambda>j (vs, h'). case build j h' of (v, h'') \<Rightarrow> (vs @ [v], h'')) items ([], h) of
        (vs, h') \<Rightarrow> (Ref (length h'), h' @ [Array vs]))"
| "build (JObj fs) h =
     (case fold (\<lambda>j (vs, h'). case build j h' of (v, h'') \<Rightarrow> (vs @ [v], h'')) (map snd fs) ([], h) of
        (vs, h') \<Rightarrow> (Ref (length h'), h' @ [Object (zip (map fst fs) vs)]))"

definition JSON_stringify :: "heap \<Rightarrow> val \<Rightarrow> json option" where
  "JSON_stringify h v = to_json [] h v"

fun truthy_val :: "val \<Rightarrow> bool" where
  "truthy_val Null = False"
| "truthy_val (Bool b) = b"
| "truthy_val (Num n) = (n \<noteq> 0)"
| "truthy_val (Str s) = (s \<noteq> [])"
| "truthy_val (Ref a) = True"

text \<open>
  The own property keys of an array or of a string are \<open>"0"\<close>, \<open>"1"\<close>, ... in decimal.
\<close>

function index_key :: "nat \<Rightarrow> string" where
  "index_key n =
     (if n < 10 then [''0123456789'' ! n]
      else index_key (n div 10) @ [''0123456789'' ! (n mod 10)])"
  by pat_completeness auto
termination
  by (relation "measure id") auto

declare index_key.simps [simp del]

definition index_keys :: "nat \<Rightarrow> string list" where
  "index_keys n = map index_key [0..<n]"

definition alloc :: "heap \<Rightarrow> obj \<Rightarrow> addr \<times> heap" where
  "alloc h ob = (length h, h @ [ob])"

text \<open>
  \<open>{...x}\<close> copies the own enumerable properties of \<open>x\<close> into a new object: the
  properties of an object, the elements of an array and the characters of a string under
  their indices, nothing for a number, a boolean or \<open>null\<close>.
\<close>

definition own_props :: "obj \<Rightarrow> (string \<times> val) list" where
  "own_props ob = (case ob of Object fs \<Rightarrow> fs | Array vs \<Rightarrow> zip (index_keys (length vs)) vs)"

definition spread :: "heap \<Rightarrow> val \<Rightarrow> (string \<times> val) list" where
  "spread h v =
     (case v of
        Ref a \<Rightarrow> (if a < length h then own_props (h ! a) else [])
      | Str s \<Rightarrow> zip (index_keys (length s)) (map (\<lambda>c. Str [c]) s)
      | _ \<Rightarrow> [])"

text \<open>
  \<open>o.k\<close> and \<open>o.k = v\<close> on an object of the heap. The sanitizer only reads and writes
  the keys \<open>description\<close>, \<open>content\<close>, \<open>sections\<close> and \<open>lessons\<close>; on an array these are
  expando properties, which neither \<open>JSON.stringify\<close> nor \<open>Array.isArray\<close> sees, so the
  assignment leaves the array as it is.
\<close>

definition get_prop :: "heap \<Rightarrow> addr \<Rightarrow> string \<Rightarrow> val option" where
  "get_prop h a k =
     (if a < length h
      then (case h ! a of
              Object fs \<Rightarrow> map_of fs k
            | Array vs \<Rightarrow>
                (if k = ''length'' then Some (Num (of_nat (length vs)))
                 else map_of (zip (index_keys (length vs)) vs) k))
      else None)"

fun assign :: "('k \<times> 'v) list \<Rightarrow> 'k \<Rightarrow> 'v \<Rightarrow> ('k \<times> 'v) list" where
  "assign [] k v = [(k, v)]"
| "assign ((k', v') # fs) k v = (if k' = k then (k, v) # fs else (k', v') # assign fs k v)"

definition set_prop :: "heap \<Rightarrow> addr \<Rightarrow> string \<Rightarrow> val \<Rightarrow> heap" where
  "set_prop h a k v =
     (if a < length h
      then (case h ! a of Object fs \<Rightarrow> h[a := Object (assign fs k v)] | Array vs \<Rightarrow> h)
      else h)"

text \<open>
  \<open>Array.isArray(v)\<close> together with the elements; \<open>xs.map(f)\<close> calls \<open>f\<close> on the elements
  from left to right, each call seeing the heap the previous one left, and allocates the
  array of the results.
\<close>

definition elements :: "heap \<Rightarrow> val \<Rightarrow> val list option" where
  "elements h v =
     (case v of
        Ref a \<Rightarrow> (if a < length h then (case h ! a of Array vs \<Rightarrow> Some vs | Object fs \<Rightarrow> None) else None)
      | _ \<Rightarrow> None)"

definition array_map :: "(heap \<Rightarrow> val \<Rightarrow> val \<times> heap) \<Rightarrow> heap \<Rightarrow> val list \<Rightarrow> val \<times> heap" where
  "array_map f h vs =
     (case fold (\<lambda>v (rs, h'). case f h' v of (r, h'') \<Rightarrow> (rs @ [r], h'')) vs ([], h) of
        (rs, h') \<Rightarrow> (Ref (length h'), h' @ [Array rs]))"

text \<open>
  \<open>stripHtmlTags\<close> returns the empty string for a value that is not a string.
  \<open>strip_prop\<close> is \<open>if (o.k) { o.k = stripHtmlTags(o.k) }\<close> and \<open>map_prop\<close> is
  \<open>if (o.k && Array.isArray(o.k)) { o.k = o.k.map(f) }\<close>.
\<close>

definition stripHtmlTags_val :: "dom_text \<Rightarrow> val \<Rightarrow> jsstring" where
  "stripHtmlTags_val textContent v = (case v of Str s \<Rightarrow> stripHtmlTags textContent s | _ \<Rightarrow> [])"

definition strip_prop :: "dom_text \<Rightarrow> string \<Rightarrow> heap \<Rightarrow> addr \<Rightarrow> heap" where
  "strip_prop textContent k h a =
     (case get_prop h a k of
        None \<Rightarrow> h
      | Some v \<Rightarrow>
          if truthy_val v then set_prop h a k (Str (stripHtmlTags_val textContent v)) else h)"

definition map_prop :: "(heap \<Rightarrow> val \<Rightarrow> val \<times> heap) \<Rightarrow> string \<Rightarrow> heap \<Rightarrow> addr \<Rightarrow> heap" where
  "map_prop f k h a =
     (case get_prop h a k of
        None \<Rightarrow> h
      | Some xs \<Rightarrow>
          (case elements h xs of
             None \<Rightarrow> h
           | Some vs \<Rightarrow> (case array_map f h vs of (arr, h') \<Rightarrow> set_prop h' a k arr)))"

text \<open>
  The bodies of the two arrow functions, for a lesson and for a section, and the function
  itself. A course that is not an object is returned as it is, and so is a course that
  \<open>JSON.stringify\<close> rejects (the \<open>catch\<close> branch).
\<close>

definition sanitize_lesson :: "dom_text \<Rightarrow> heap \<Rightarrow> val \<Rightarrow> val \<times> heap" where
  "sanitize_lesson textContent h lesson =
     (case alloc h (Object (spread h lesson)) of
        (sanitizedLesson, h1) \<Rightarrow>
          (Ref sanitizedLesson,
           strip_prop textContent ''description''
             (strip_prop textContent ''content'' h1 sanitizedLesson) sanitizedLesson))"

definition sanitize_section :: "dom_text \<Rightarrow> heap \<Rightarrow> val \<Rightarrow> val \<times> heap" where
  "sanitize_section textContent h sec =
     (case alloc h (Object (spread h sec)) of
        (sanitizedSection, h1) \<Rightarrow>
          (Ref sanitizedSection,
           map_prop (sanitize_lesson textContent) ''lessons''
             (strip_prop textContent ''description'' h1 sanitizedSection) sanitizedSection))"

definition sanitizeCourseForStorage :: "dom_text \<Rightarrow> heap \<Rightarrow> val \<Rightarrow> val \<times> heap" where
  "sanitizeCourseForStorage textContent h course =
     (case course of
        Ref c \<Rightarrow>
          (case JSON_stringify h course of
             None \<Rightarrow> (course, h)
           | Some j \<Rightarrow>
               (case build j h of
                  (Ref sanitizedCourse, h1) \<Rightarrow>
                    (Ref sanitizedCourse,
                     map_prop (sanitize_section textContent) ''sections''
                       (strip_prop textContent ''description'' h1 sanitizedCourse) sanitizedCourse)
                | (v, h1) \<Rightarrow> (v, h1)))
      | _ \<Rightarrow> (course, h))"

definition sanitizeCoursesForStorage :: "dom_text \<Rightarrow> heap \<Rightarrow> val \<Rightarrow> val \<times> heap" where
  "sanitizeCoursesForStorage textContent h courses =
     (case elements h courses of
        None \<Rightarrow> (courses, h)
      | Some vs \<Rightarrow> array_map (sanitizeCourseForStorage textContent) h vs)"

subsection \<open>The sanitizer as a function on JSON values\<close>

text \<open>
  What the result should be, written on the value that \<open>JSON.stringify\<close> prints for the
  course: \<open>description\<close> and \<open>content\<close> stripped where they are truthy, \<open>sections\<close> and
  \<open>lessons\<close> mapped where they are arrays, everything else as it was.
\<close>

definition spread_json :: "json \<Rightarrow> (string \<times> json) list" where
  "spread_json j =
     (case j of
        JObj fs \<Rightarrow> fs
      | JArr xs \<Rightarrow> zip (index_keys (length xs)) xs
      | JStr s \<Rightarrow> zip (index_keys (length s)) (map (\<lambda>c. JStr [c]) s)
      | _ \<Rightarrow> [])"

definition strip_json :: "dom_text \<Rightarrow> json \<Rightarrow> jsstring" where
  "strip_json textContent j = (case j of JStr s \<Rightarrow> stripHtmlTags textContent s | _ \<Rightarrow> [])"

definition strip_field :: "dom_text \<Rightarrow> string \<Rightarrow> (string \<times> json) list \<Rightarrow> (string \<times> json) list" where
  "strip_field textContent k fs =
     (case map_of fs k of
        None \<Rightarrow> fs
      | Some v \<Rightarrow> if truthy v then assign fs k (JStr (strip_json textContent v)) else fs)"

definition map_field :: "(json \<Rightarrow> json) \<Rightarrow> string \<Rightarrow> (string \<times> json) list \<Rightarrow> (string \<times> json) list" where
  "map_field g k fs =
     (case map_of fs k of
        Some (JArr xs) \<Rightarrow> assign fs k (JArr (map g xs))
      | _ \<Rightarrow> fs)"

definition sanitize_lesson_json :: "dom_text \<Rightarrow> json \<Rightarrow> json" where
  "sanitize_lesson_json textContent j =
     JObj (strip_field textContent ''description'' (strip_field textContent ''content'' (spread_json j)))"

definition sanitize_section_json :: "dom_text \<Rightarrow> json \<Rightarrow> json" where
  "sanitize_section_json textContent j =
     JObj (map_field (sanitize_lesson_json textContent) ''lessons''
            (strip_field textContent ''description'' (spread_json j)))"

definition sanitize_course_json :: "dom_text \<Rightarrow> json \<Rightarrow> json" where
  "sanitize_course_json textContent j =
     (case j of
        JObj fs \<Rightarrow>
          JObj (map_field (sanitize_section_json textContent) ''sections''
                  (strip_field textContent ''description'' fs))
      | _ \<Rightarrow> j)"

subsection \<open>Frames and fresh copies\<close>

text \<open>
  \<open>keeps n h h'\<close>: the heap \<open>h'\<close> extends \<open>h\<close> and its first \<open>n\<close> objects are those of \<open>h\<close>.
  \<open>reads S h v j\<close>: the value \<open>v\<close> represents \<open>j\<close> in \<open>h\<close> and every object reached from \<open>v\<close>
  has its address in \<open>S\<close>.
\<close>

definition keeps :: "nat \<Rightarrow> heap \<Rightarrow> heap \<Rightarrow> bool" where
  "keeps n h h' = (n \<le> length h \<and> length h \<le> length h' \<and> take n h' = take n h)"

fun reads :: "addr set \<Rightarrow> heap \<Rightarrow> val \<Rightarrow> json \<Rightarrow> bool" where
  "reads S h Null j = (j = JNull)"
| "reads S h (Bool b) j = (j = JBool b)"
| "reads S h (Num n) j = (j = JNum n)"
| "reads S h (Str s) j = (j = JStr s)"
| "reads S h (Ref a) (JArr items) =
     (a \<in> S \<and> a < length h \<and>
      (case h ! a of Array vs \<Rightarrow> list_all2 (reads S h) vs items | Object fs \<Rightarrow> False))"
| "reads S h (Ref a) (JObj jfs) =
     (a \<in> S \<and> a < length h \<and>
      (case h ! a of
         Object fs \<Rightarrow> map fst fs = map fst jfs \<and> list_all2 (reads S h) (map snd fs) (map snd jfs)
       | Array vs \<Rightarrow> False))"
| "reads S h (Ref a) j = False"

definition fields_read :: "addr set \<Rightarrow> heap \<Rightarrow> (string \<times> val) list \<Rightarrow> (string \<times> json) list \<Rightarrow> bool" where
  "fields_read S h fs jfs =
     (map fst fs = map fst jfs \<and> list_all2 (reads S h) (map snd fs) (map snd jfs))"

definition strip_cell :: "dom_text \<Rightarrow> string \<Rightarrow> (string \<times> val) list \<Rightarrow> (string \<times> val) list" where
  "strip_cell textContent k fs =
     (case map_of fs k of
        None \<Rightarrow> fs
      | Some v \<Rightarrow> if truthy_val v then assign fs k (Str (stripHtmlTags_val textContent v)) else fs)"

text \<open>
  A heap operation refines a function on JSON values when, applied to a value that
  represents \<open>j\<close>, it keeps every object that existed and returns a representation of
  \<open>g j\<close> made of new objects only.
\<close>

definition refines :: "(heap \<Rightarrow> val \<Rightarrow> val \<times> heap) \<Rightarrow> (json \<Rightarrow> json) \<Rightarrow> bool" where
  "refines f g =
     (\<forall>S h v j r h'. reads S h v j \<longrightarrow> S \<subseteq> {..<length h} \<longrightarrow> f h v = (r, h') \<longrightarrow>
        keeps (length h) h h' \<and> reads (S \<union> {length h..<length h'}) h' r (g j))"

fun jsize :: "json \<Rightarrow> nat" where
  "jsize (JArr items) = Suc (sum_list (map jsize items))"
| "jsize (JObj jfs) = Suc (sum_list (map (\<lambda>kv. jsize (snd kv)) jfs))"
| "jsize j = 0"

subsection \<open>Fields that the sanitizer keeps\<close>

text \<open>
  Two property lists with the same keys in the same order, and the same values except
  under the listed keys. Two courses are the same up to sanitizing when their fields
  agree except for \<open>description\<close> and \<open>sections\<close>, and their sections, taken in order, agree
  except for \<open>description\<close> and \<open>lessons\<close>, and the lessons of each section, taken in order,
  agree except for \<open>content\<close> and \<open>description\<close>.
\<close>

definition same_fields_except :: "string list \<Rightarrow> (string \<times> json) list \<Rightarrow> (string \<times> json) list \<Rightarrow> bool" where
  "same_fields_except ks fs fs' =
     list_all2 (\<lambda>kv kv'. fst kv = fst kv' \<and> (fst kv \<in> set ks \<or> snd kv = snd kv')) fs fs'"

definition same_lesson :: "json \<Rightarrow> json \<Rightarrow> bool" where
  "same_lesson l l' =
     (case (l, l') of
        (JObj fs, JObj fs') \<Rightarrow> same_fields_except [''content'', ''description''] fs fs'
      | _ \<Rightarrow> False)"

definition same_list_field :: "(json \<Rightarrow> json \<Rightarrow> bool) \<Rightarrow> json option \<Rightarrow> json option \<Rightarrow> bool" where
  "same_list_field same x y =
     (case (x, y) of
        (Some (JArr xs), Some (JArr ys)) \<Rightarrow> list_all2 same xs ys
      | _ \<Rightarrow> x = y)"

definition same_section :: "json \<Rightarrow> json \<Rightarrow> bool" where
  "same_section s s' =
     (case (s, s') of
        (JObj fs, JObj fs') \<Rightarrow>
          same_fields_except [''description'', ''lessons''] fs fs' \<and>
          same_list_field same_lesson (map_of fs ''lessons'') (map_of fs' ''lessons'')
      | _ \<Rightarrow> False)"

definition same_course :: "json \<Rightarrow> json \<Rightarrow> bool" where
  "same_course c c' =
     (case (c, c') of
        (JObj fs, JObj fs') \<Rightarrow>
          same_fields_except [''description'', ''sections''] fs fs' \<and>
          same_list_field same_section (map_of fs ''sections'') (map_of fs' ''sections'')
      | _ \<Rightarrow> False)"

text \<open>
  A course as the application stores it: an object whose sections, when it has an array
  of them, are objects whose lessons, when they have an array of them, are objects.
\<close>

definition is_object :: "json \<Rightarrow> bool" where
  "is_object j = (case j of JObj fs \<Rightarrow> True | _ \<Rightarrow> False)"

definition list_field_all :: "(json \<Rightarrow> bool) \<Rightarrow> json option \<Rightarrow> bool" where
  "list_field_all P x = (case x of Some (JArr xs) \<Rightarrow> list_all P xs | _ \<Rightarrow> True)"

definition wf_section :: "json \<Rightarrow> bool" where
  "wf_section s = (case s of JObj fs \<Rightarrow> list_field_all is_object (map_of fs ''lessons'') | _ \<Rightarrow> False)"

definition wf_course :: "json \<Rightarrow> bool" where
  "wf_course c = (case c of JObj fs \<Rightarrow> list_field_all wf_section (map_of fs ''sections'') | _ \<Rightarrow> False)"

section \<open>Data migration (dataMigration.js)\<close>

text \<open>
  The keys of the course list and of the version marker are entries of the storage. An
  entry is the text of a JSON value or a text that is no JSON; the version \<open>1.0.0\<close> is of
  the second kind.
\<close>

definition COURSES_STORAGE_KEY :: string where
  "COURSES_STORAGE_KEY = ''courses''"

definition MIGRATION_VERSION_KEY :: string where
  "MIGRATION_VERSION_KEY = ''course_data_migration_version''"

definition CURRENT_MIGRATION_VERSION :: string where
  "CURRENT_MIGRATION_VERSION = ''1.0.0''"

definition entry_at :: "string \<Rightarrow> storage \<Rightarrow> json item option" where
  "entry_at k st = entries st k"

definition put_entry :: "string \<Rightarrow> json item \<Rightarrow> storage \<Rightarrow> storage" where
  "put_entry k v st = st\<lparr>entries := (entries st)(k \<mapsto> v)\<rparr>"

text \<open>
  \<open>isMigrationNeeded\<close>: the marker differs from the current version, or cannot be read.
\<close>

definition isMigrationNeeded :: "storage \<Rightarrow> bool" where
  "isMigrationNeeded st =
     (case getItem (entry_at MIGRATION_VERSION_KEY) st of
        Inl e \<Rightarrow> True
      | Inr currentVersion \<Rightarrow> currentVersion \<noteq> Some (NotJson CURRENT_MIGRATION_VERSION))"

text \<open>
  The result of a migration: \<open>success\<close>, \<open>message\<close>, the number of courses and, on failure,
  the error caught. The report of a successful run also carries \<open>beforeAnalysis\<close> and the
  byte sizes before and after; they are computed by calls that only read
  (\<open>analyzeExistingData\<close>, which catches its own errors, and \<open>new Blob(...).size\<close>, which
  exists wherever \<open>localStorage\<close> does) and are left out of the record.
\<close>

record migration_result =
  success :: bool
  message :: string
  coursesProcessed :: "nat option"
  error :: "js_error option"

definition migration_failed :: "js_error \<Rightarrow> migration_result" where
  "migration_failed e =
     \<lparr>success = False, message = ''Data migration failed'', coursesProcessed = None, error = Some e\<rparr>"

text \<open>
  The backup key is \<open>courses_backup_\<close> followed by \<open>Date.now()\<close> in decimal; \<open>now\<close> is that
  reading of the clock.
\<close>

definition backup_key :: "nat \<Rightarrow> string" where
  "backup_key now = COURSES_STORAGE_KEY @ ''_backup_'' @ index_key now"

definition mark_complete :: "quota \<Rightarrow> storage \<Rightarrow> js_error + storage" where
  "mark_complete q st = setItem q (put_entry MIGRATION_VERSION_KEY (NotJson CURRENT_MIGRATION_VERSION)) st"

text \<open>
  \<open>migrateExistingData\<close>, statement by statement; every exception goes to the one \<open>catch\<close>
  branch, which returns the failure and leaves the storage as the statements before the
  exception wrote it. \<open>JSON.parse\<close> builds the courses on a heap of their own.
\<close>

definition migrateExistingData ::
  "quota \<Rightarrow> dom_text \<Rightarrow> nat \<Rightarrow> bool \<Rightarrow> storage \<Rightarrow> migration_result \<times> storage" where
  "migrateExistingData q textContent now createBackup st =
     (case getItem (entry_at COURSES_STORAGE_KEY) st of
        Inl e \<Rightarrow> (migration_failed e, st)
      | Inr stored \<Rightarrow>
          if stored = None \<or> stored = Some (NotJson []) then
            (case mark_complete q st of
               Inl e \<Rightarrow> (migration_failed e, st)
             | Inr st' \<Rightarrow>
                 (\<lparr>success = True, message = ''No existing data to migrate'',
                   coursesProcessed = Some 0, error = None\<rparr>, st'))
          else
            (case (if createBackup
                   then setItem q (\<lambda>s. s\<lparr>entries := (entries s)(backup_key now := stored)\<rparr>) st
                   else Inr st) of
               Inl e \<Rightarrow> (migration_failed e, st)
             | Inr st1 \<Rightarrow>
                 (case stored of
                    Some (JsonText (JArr items)) \<Rightarrow>
                      (case build (JArr items) [] of
                         (courses, h) \<Rightarrow>
                           (case sanitizeCoursesForStorage textContent h courses of
                              (sanitizedCourses, h') \<Rightarrow>
                                (case JSON_stringify h' sanitizedCourses of
                                   None \<Rightarrow> (migration_failed TypeError, st1)
                                 | Some cleaned \<Rightarrow>
                                     (case setItem q (put_entry COURSES_STORAGE_KEY (JsonText cleaned)) st1 of
                                        Inl e \<Rightarrow> (migration_failed e, st1)
                                      | Inr st2 \<Rightarrow>
                                          (case mark_complete q st2 of
                                             Inl e \<Rightarrow> (migration_failed e, st2)
                                           | Inr st3 \<Rightarrow>
                                               (\<lparr>success = True,
                                                 message = ''Data migration completed successfully'',
                                                 coursesProcessed = Some (length items),
                                                 error = None\<rparr>, st3))))))
                  | Some (JsonText other) \<Rightarrow>
                      (migration_failed (Error ''Invalid course data format''), st1)
                  | _ \<Rightarrow> (migration_failed SyntaxError, st1))))"

text \<open>
  The payloads the migration cannot use: a text that is no JSON (the empty text counts as
  no data), and a JSON value that is not an array.
\<close>

definition unusable_payload :: "json item option \<Rightarrow> bool" where
  "unusable_payload stored =
     (case stored of
        None \<Rightarrow> False
      | Some (NotJson s) \<Rightarrow> s \<noteq> []
      | Some (JsonText (JArr items)) \<Rightarrow> False
      | Some (JsonText other) \<Rightarrow> True)"

section \<open>Example inputs\<close>

text \<open>A browser without a quota, and a clock that reads every date string as the epoch.\<close>

definition unlimited :: quota where
  "unlimited st = True"

definition ms0 :: "string \<Rightarrow> int" where
  "ms0 s = 0"

text \<open>
  A browser whose quota has no room left for a streak record: it refuses every write that
  would leave one in the storage.
\<close>

definition no_room_for_streak :: quota where
  "no_room_for_streak st = (learning_streak st = None)"

text \<open>A ledger where lesson L1 was completed with a score.\<close>

definition ledger0 :: storage where
  "ledger0 = \<lparr>available = True,
     course_progress = Some (JsonText
       [''L1'' \<mapsto> [''completed'' \<mapsto> JBool True,
                  ''completedAt'' \<mapsto> JStr (js ''2024-01-01T00:00:00.000Z''),
                  ''score'' \<mapsto> JNum 95]]),
     course_bookmarks = None, learning_streak = None, entries = Map.empty\<rparr>"

text \<open>The spec's scenario (one section, lessons L1 and L2), and a course whose only section has no lessons.\<close>

definition two_lesson_course :: course where
  "two_lesson_course = \<lparr>course_id = ''c1'', status = ''published'', enrolledStudents = None,
     rating = None,
     sections = Some [\<lparr>lessons = Some [\<lparr>lesson_id = ''L1''\<rparr>, \<lparr>lesson_id = ''L2''\<rparr>]\<rparr>]\<rparr>"

definition empty_section_course :: course where
  "empty_section_course = \<lparr>course_id = ''c2'', status = ''draft'', enrolledStudents = None,
     rating = None, sections = Some [\<lparr>lessons = Some []\<rparr>]\<rparr>"

text \<open>
  A course with one section and one lesson on the heap, the value \<open>JSON.stringify\<close> prints
  for it, and the sanitized value.
\<close>

definition course_heap :: heap where
  "course_heap =
     [Object [(''id'', Str (js ''l1'')), (''title'', Str (js ''Intro'')),
              (''content'', Str (js ''<p>Hello <b>world</b></p>''))],
      Array [Ref 0],
      Object [(''id'', Str (js ''s1'')), (''description'', Str (js ''<i>First</i>'')),
              (''lessons'', Ref 1)],
      Array [Ref 2],
      Object [(''id'', Str (js ''c1'')), (''title'', Str (js ''Algebra'')),
              (''description'', Str (js ''<h1>About</h1>'')), (''category'', Str (js ''math'')),
              (''difficulty'', Str (js ''beginner'')), (''status'', Str (js ''published'')),
              (''order'', Num 3), (''sections'', Ref 3)]]"

definition course_json :: json where
  "course_json =
     JObj [(''id'', JStr (js ''c1'')), (''title'', JStr (js ''Algebra'')),
           (''description'', JStr (js ''<h1>About</h1>'')), (''category'', JStr (js ''math'')),
           (''difficulty'', JStr (js ''beginner'')), (''status'', JStr (js ''published'')),
           (''order'', JNum 3),
           (''sections'', JArr [JObj [(''id'', JStr (js ''s1'')),
              (''description'', JStr (js ''<i>First</i>'')),
              (''lessons'', JArr [JObj [(''id'', JStr (js ''l1'')), (''title'', JStr (js ''Intro'')),
                 (''content'', JStr (js ''<p>Hello <b>world</b></p>''))]])]])]"

definition sanitized_json :: json where
  "sanitized_json =
     JObj [(''id'', JStr (js ''c1'')), (''title'', JStr (js ''Algebra'')),
           (''description'', JStr (js ''About'')), (''category'', JStr (js ''math'')),
           (''difficulty'', JStr (js ''beginner'')), (''status'', JStr (js ''published'')),
           (''order'', JNum 3),
           (''sections'', JArr [JObj [(''id'', JStr (js ''s1'')),
              (''description'', JStr (js ''First'')),
              (''lessons'', JArr [JObj [(''id'', JStr (js ''l1'')), (''title'', JStr (js ''Intro'')),
                 (''content'', JStr (js ''Hello world''))]])]])]"

text \<open>
  A storage where the course list and the three keys of the progress ledger hold the text
  \<open>not json\<close>, and a storage that holds the example course.
\<close>

definition corrupted_store :: storage where
  "corrupted_store = \<lparr>available = True,
     course_progress = Some (NotJson ''not json''),
     course_bookmarks = Some (NotJson ''not json''),
     learning_streak = Some (NotJson ''not json''),
     entries = [COURSES_STORAGE_KEY \<mapsto> NotJson ''not json'']\<rparr>"

definition course_store :: storage where
  "course_store = \<lparr>available = True, course_progress = None, course_bookmarks = None,
     learning_streak = None, entries = [COURSES_STORAGE_KEY \<mapsto> JsonText (JArr [course_json])]\<rparr>"

text \<open>
  A course with a rating, and the repository's test of entity decoding: its input and the
  text it expects.
\<close>

definition rated :: "rat \<Rightarrow> course" where
  "rated r = \<lparr>course_id = ''c'', status = ''published'', enrolledStudents = None,
     rating = Some r, sections = None\<rparr>"

definition price_test :: jsstring where
  "price_test = js ''<p>Price: $99 &amp; up. Use code &quot;SAVE20&quot; for 20% off!</p>''"

definition price_text :: jsstring where
  "price_text = js ''Price: $99 & up. Use code '' @ js [CHR 0x22] @ js ''SAVE20'' @ js [CHR 0x22] @
     js '' for 20% off!''"

text \<open>
  A DOM as it treats a text without markup: the text content of the element is the text.
\<close>

definition echo_dom :: dom_text where
  "echo_dom s = Some s"

section \<open>Properties of the streak update\<close>

lemma updateLearningStreak_again:
  "updateLearningStreak q ms today (snd (updateLearningStreak q ms today st)) =
   updateLearningStreak q ms today st"
  by (auto simp: updateLearningStreak_def getItem_def setItem_def parse_or_def Let_def
           split: sum.splits option.splits item.splits if_splits)

text \<open>
  C6. Calling \<open>updateLearningStreak\<close> again on the same calendar day, any number of
  times, returns the same streak record as the first call of that day and leaves the
  storage as the first call left it: every call after the first is a no-op. This holds
  from every starting storage, also a denied, a corrupted or a full one.
\<close>

theorem updateLearningStreak_same_day:
  "update_times n q ms today st = updateLearningStreak q ms today st"
proof (induction n)
  case 0
  show ?case by simp
next
  case (Suc n)
  have "update_times (Suc n) q ms today st =
        updateLearningStreak q ms today (snd (updateLearningStreak q ms today st))"
    by (simp add: Suc.IH)
  then show ?case by (simp only: updateLearningStreak_again)
qed

section \<open>Properties of lesson completion\<close>

lemma updateLearningStreak_frame:
  "course_progress (snd (updateLearningStreak q ms today st)) = course_progress st"
  "available (snd (updateLearningStreak q ms today st)) = available st"
  by (auto simp: updateLearningStreak_def getItem_def setItem_def parse_or_def Let_def
           split: sum.splits option.splits item.splits if_splits)

lemma loadProgress_cong:
  "course_progress st' = course_progress st \<Longrightarrow> available st' = available st \<Longrightarrow>
   loadProgressFromStorage st' = loadProgressFromStorage st"
  by (simp add: loadProgressFromStorage_def getItem_def)

lemma load_after_saved:
  "fst (saveProgressToStorage q st p) \<Longrightarrow>
   loadProgressFromStorage (snd (saveProgressToStorage q st p)) = p"
  by (auto simp: saveProgressToStorage_def setItem_def loadProgressFromStorage_def getItem_def
        parse_or_def split: if_splits)

lemma is_completed_record:
  "keeps_completed md \<Longrightarrow> is_completed (Some (completed_record now md))"
  by (auto simp: keeps_completed_def is_completed_def completed_record_def map_add_def split: option.splits)

lemma load_after_toggle:
  assumes "toggle_saved q ms today now st lessonId md"
  shows "loadProgressFromStorage (snd (toggleLessonCompletion q ms today now st lessonId md)) =
         (if is_completed (loadProgressFromStorage st lessonId)
          then (loadProgressFromStorage st)(lessonId := None)
          else assign_record (loadProgressFromStorage st) lessonId (completed_record now md))"
  using assms
  by (auto simp: toggle_saved_def toggleLessonCompletion_def getLessonProgress_def
        markLessonIncomplete_def markLessonCompleted_def Let_def load_after_saved
        loadProgress_cong[OF updateLearningStreak_frame] split: if_splits)

text \<open>
  C4 (as amended). When the writes of both calls are accepted and the first call's
  metadata does not overwrite \<open>completed\<close>, two toggles of a lesson leave every other
  lesson's record as it was. A lesson without a completed record ends without any record,
  so a ledger where the lesson had no record is restored exactly. A lesson that was
  completed ends completed again, with a new record made of \<open>completed\<close>, the new
  \<open>completedAt\<close> and the second call's metadata only: metadata of the earlier record is not
  restored. The lesson id \<open>__proto__\<close> is the exception: the second call's assignment stores
  nothing, and the lesson ends without a record.
\<close>

theorem toggle_twice:
  assumes "both_saved q ms today now1 now2 st lessonId md1 md2" "keeps_completed md1"
  shows "loadProgressFromStorage (toggled_twice q ms today now1 now2 st lessonId md1 md2) =
         (if is_completed (loadProgressFromStorage st lessonId)
          then (if lessonId = ''__proto__'' then (loadProgressFromStorage st)(lessonId := None)
                else (loadProgressFromStorage st)(lessonId \<mapsto> completed_record now2 md2))
          else (loadProgressFromStorage st)(lessonId := None))"
proof -
  let ?p = "loadProgressFromStorage st"
  let ?st1 = "snd (toggleLessonCompletion q ms today now1 st lessonId md1)"
  from assms(1) have s1: "toggle_saved q ms today now1 st lessonId md1"
    and s2: "toggle_saved q ms today now2 ?st1 lessonId md2"
    by (simp_all add: both_saved_def)
  have p1: "loadProgressFromStorage ?st1 =
            (if is_completed (?p lessonId) then ?p(lessonId := None)
             else assign_record ?p lessonId (completed_record now1 md1))"
    using s1 by (rule load_after_toggle)
  have p2: "loadProgressFromStorage (toggled_twice q ms today now1 now2 st lessonId md1 md2) =
            (if is_completed (loadProgressFromStorage ?st1 lessonId)
             then (loadProgressFromStorage ?st1)(lessonId := None)
             else assign_record (loadProgressFromStorage ?st1) lessonId (completed_record now2 md2))"
    unfolding toggled_twice_def using s2 by (rule load_after_toggle)
  show ?thesis
  proof (cases "is_completed (?p lessonId)")
    case True
    have "\<not> is_completed (loadProgressFromStorage ?st1 lessonId)"
      using True by (simp add: p1 is_completed_def)
    with True show ?thesis by (simp add: p2 p1 assign_record_def)
  next
    case False
    show ?thesis
    proof (cases "lessonId = ''__proto__'' \<and> ?p lessonId = None")
      case True
      then have a: "assign_record ?p lessonId r = ?p" for r by (auto simp: assign_record_def)
      from True have d: "?p(lessonId := None) = ?p" by (auto simp: fun_upd_idem_iff)
      have e: "loadProgressFromStorage ?st1 = ?p" using False by (simp add: p1 a)
      have "loadProgressFromStorage (toggled_twice q ms today now1 now2 st lessonId md1 md2) = ?p"
        using False by (simp add: p2 e a)
      with False d show ?thesis by simp
    next
      case n: False
      then have e: "loadProgressFromStorage ?st1 = ?p(lessonId \<mapsto> completed_record now1 md1)"
        using False by (auto simp: p1 assign_record_def)
      have "is_completed (loadProgressFromStorage ?st1 lessonId)"
        using assms(2) by (simp add: e is_completed_record)
      with False show ?thesis by (simp add: p2 e)
    qed
  qed
qed

text \<open>
  C4 (as stated) fails: L1 was completed with a score; after two toggles without
  metadata the record of L1 has no score, which is more than a new timestamp.
\<close>

theorem toggle_twice_loses_metadata:
  "record_field (loadProgressFromStorage ledger0) ''L1'' ''score'' = Some (JNum 95) \<and>
   record_field (loadProgressFromStorage
      (toggled_twice unlimited ms0 ''Tue Jan 02 2024'' (js ''2024-01-02T10:00:00.000Z'')
         (js ''2024-01-02T10:00:05.000Z'') ledger0 ''L1'' Map.empty Map.empty)) ''L1'' ''score'' = None"
  by (simp add: record_field_def toggled_twice_def toggleLessonCompletion_def getLessonProgress_def
        loadProgressFromStorage_def getItem_def parse_or_def ledger0_def is_completed_def
        markLessonIncomplete_def markLessonCompleted_def saveProgressToStorage_def setItem_def
        unlimited_def updateLearningStreak_def streak_default_def Let_def completed_record_def assign_record_def)

text \<open>
  The amended statement at a lesson without a record, in a browser that refuses the streak
  record: the ledger writes are accepted and the ledger is restored.
\<close>

theorem toggle_twice_witness:
  "both_saved no_room_for_streak ms0 ''Tue Jan 02 2024'' (js ''a'') (js ''b'') ledger0 ''L2''
     Map.empty Map.empty \<and>
   keeps_completed Map.empty \<and>
   loadProgressFromStorage (toggled_twice no_room_for_streak ms0 ''Tue Jan 02 2024'' (js ''a'') (js ''b'')
       ledger0 ''L2'' Map.empty Map.empty) = loadProgressFromStorage ledger0"
proof -
  have b: "both_saved no_room_for_streak ms0 ''Tue Jan 02 2024'' (js ''a'') (js ''b'') ledger0 ''L2''
     Map.empty Map.empty"
    by (simp add: both_saved_def toggle_saved_def toggleLessonCompletion_def getLessonProgress_def
          loadProgressFromStorage_def getItem_def parse_or_def ledger0_def is_completed_def
          markLessonIncomplete_def markLessonCompleted_def saveProgressToStorage_def setItem_def
          no_room_for_streak_def updateLearningStreak_def streak_default_def Let_def
          completed_record_def assign_record_def)
  have k: "keeps_completed Map.empty" by (simp add: keeps_completed_def)
  have n: "\<not> is_completed (loadProgressFromStorage ledger0 ''L2'')"
    by (simp add: is_completed_def loadProgressFromStorage_def getItem_def parse_or_def ledger0_def)
  have e: "(loadProgressFromStorage ledger0)(''L2'' := None) = loadProgressFromStorage ledger0"
    by (rule ext) (simp add: loadProgressFromStorage_def getItem_def parse_or_def ledger0_def)
  show ?thesis
    using toggle_twice [OF b k] b k n e by simp
qed

text \<open>
  A toggle of the lesson id \<open>__proto__\<close> on a ledger that does not own that key stores
  nothing.
\<close>

lemma toggle_proto_stores_nothing:
  "loadProgressFromStorage (snd (toggleLessonCompletion unlimited ms0 ''Tue Jan 02 2024'' (js ''a'')
       ledger0 ''__proto__'' Map.empty)) = loadProgressFromStorage ledger0"
  by (simp add: toggleLessonCompletion_def getLessonProgress_def
        loadProgressFromStorage_def getItem_def parse_or_def ledger0_def is_completed_def
        markLessonCompleted_def saveProgressToStorage_def setItem_def
        unlimited_def updateLearningStreak_def streak_default_def Let_def assign_record_def)

section \<open>Properties of the double-precision model\<close>

lemma powi_nat: "0 \<le> n \<Longrightarrow> (2::rat) powi n = 2 ^ nat n"
  by (simp add: power_int_def)

lemma rat_bitlen_bounds:
  assumes "0 < (p::int)"
  shows "(2::rat) powi (bitlen p - 1) \<le> of_int p" "of_int p < (2::rat) powi (bitlen p)"
proof -
  have b: "1 \<le> bitlen p" using assms bitlen_eq_zero_iff[of p] bitlen_nonneg[of p] by linarith
  have "2 ^ nat (bitlen p - 1) \<le> p" "p < 2 ^ nat (bitlen p)"
    using bitlen_bounds[OF assms] by auto
  then have "(of_int (2 ^ nat (bitlen p - 1)) :: rat) \<le> of_int p" "(of_int p :: rat) < of_int (2 ^ nat (bitlen p))"
    by (simp_all only: of_int_le_iff of_int_less_iff)
  then show "(2::rat) powi (bitlen p - 1) \<le> of_int p" "of_int p < (2::rat) powi (bitlen p)"
    using b by (simp_all add: powi_nat)
qed

lemma ilog2_bounds:
  assumes "0 < x"
  shows "2 powi ilog2 x \<le> x" "x < 2 powi (ilog2 x + 1)"
proof -
  obtain p q where pq: "quotient_of x = (p, q)" by (cases "quotient_of x")
  have q: "0 < q" using pq by (rule quotient_of_denom_pos)
  have x: "x = of_int p / of_int q" using pq by (rule quotient_of_div)
  have p: "0 < p" using assms q x by (simp add: zero_less_divide_iff)
  let ?k = "bitlen p - bitlen q"
  have lo: "2 powi (?k - 1) \<le> x"
  proof -
    have "2 powi (?k - 1) = (2::rat) powi (bitlen p - 1) / 2 powi (bitlen q)"
      by (simp add: power_int_diff)
    also have "\<dots> \<le> of_int p / 2 powi (bitlen q)"
      using rat_bitlen_bounds(1)[OF p] by (simp add: divide_right_mono)
    also have "\<dots> \<le> of_int p / of_int q"
      using rat_bitlen_bounds(2)[OF q] p q by (simp add: frac_le)
    finally show ?thesis by (simp add: x)
  qed
  have hi: "x < 2 powi (?k + 1)"
  proof -
    have "x = of_int p / of_int q" by (rule x)
    also have "\<dots> < 2 powi (bitlen p) / of_int q"
      using rat_bitlen_bounds(2)[OF p] q by (simp add: divide_strict_right_mono)
    also have "\<dots> \<le> 2 powi (bitlen p) / 2 powi (bitlen q - 1)"
      using rat_bitlen_bounds(1)[OF q] q by (simp add: frac_le)
    also have "\<dots> = 2 powi (?k + 1)"
      by (simp add: power_int_diff power_int_add)
    finally show ?thesis .
  qed
  show "2 powi ilog2 x \<le> x" using lo by (simp add: ilog2_def pq Let_def)
  show "x < 2 powi (ilog2 x + 1)" using hi by (auto simp add: ilog2_def pq Let_def not_le)
qed

lemma rne_error: "\<bar>of_int (rne y) - y\<bar> \<le> 1 / 2"
proof -
  have "of_int \<lfloor>y\<rfloor> \<le> y" "y < of_int \<lfloor>y\<rfloor> + 1" by linarith+
  then show ?thesis by (auto simp: rne_def Let_def abs_le_iff)
qed

lemma rne_le: "y \<le> of_int m \<Longrightarrow> rne y \<le> m"
proof -
  assume a: "y \<le> of_int m"
  have "\<lfloor>y\<rfloor> \<le> m" using a by (simp add: floor_le_iff)
  moreover have "\<lfloor>y\<rfloor> = m \<Longrightarrow> y = of_int m" using a by linarith
  ultimately show ?thesis
    by (cases "\<lfloor>y\<rfloor> = m") (auto simp: rne_def Let_def)
qed

lemma rne_ge: "of_int m \<le> y \<Longrightarrow> m \<le> rne y"
proof -
  assume a: "of_int m \<le> y"
  have "m \<le> \<lfloor>y\<rfloor>" using a by (simp add: le_floor_iff)
  then show ?thesis by (auto simp: rne_def Let_def)
qed

lemma fl_nonneg: "0 \<le> x \<Longrightarrow> 0 \<le> fl x"
proof -
  assume a: "0 \<le> x"
  have "\<And>e. 0 \<le> rne (x / 2 powi e)"
    using a by (intro rne_ge) simp
  then show ?thesis by (simp add: fl_def Let_def)
qed

lemma fl_error:
  assumes "0 < x"
  shows "\<bar>fl x - x\<bar> \<le> x / 2 ^ 53"
proof -
  let ?e = "ilog2 x - 52"
  let ?y = "x / 2 powi ?e"
  have pe: "(0::rat) < 2 powi ?e" by simp
  have fl: "fl x = of_int (rne ?y) * 2 powi ?e"
    using assms by (simp add: fl_def Let_def)
  have "fl x - x = (of_int (rne ?y) - ?y) * 2 powi ?e"
    using pe by (simp add: fl field_simps)
  then have "\<bar>fl x - x\<bar> = \<bar>of_int (rne ?y) - ?y\<bar> * 2 powi ?e"
    using pe by (simp add: abs_mult)
  also have "\<dots> \<le> (1 / 2) * 2 powi ?e"
    using rne_error[of ?y] pe by (intro mult_right_mono) simp_all
  also have "\<dots> = 2 powi ilog2 x / 2 ^ 53"
    by (simp add: power_int_diff)
  also have "\<dots> \<le> x / 2 ^ 53"
    using ilog2_bounds(1)[OF assms] by (simp add: divide_right_mono)
  finally show ?thesis .
qed

lemma fl_le_int:
  assumes "0 < x" "x \<le> of_int n" "n < 2 ^ 53"
  shows "fl x \<le> of_int n"
proof -
  let ?e = "ilog2 x - 52"
  have "2 powi ilog2 x \<le> x" by (rule ilog2_bounds(1)[OF assms(1)])
  also have "x \<le> of_int n" by fact
  also have "(of_int n :: rat) < 2 powi 53" using assms(3)
    by (metis of_int_less_iff of_int_numeral of_int_power power_int_numeral numeral_One one_add_one power_int_of_nat of_nat_numeral)
  finally have "(2::rat) powi ilog2 x < 2 powi 53" .
  then have "ilog2 x < 53"
    by (rule power_int_le_imp_less_exp[rotated]) simp_all
  then have e: "?e \<le> 0" by simp
  have pe: "(0::rat) < 2 powi ?e" by simp
  have "(of_int n :: rat) / 2 powi ?e = of_int (n * 2 ^ nat (- ?e))"
    using e by (simp add: power_int_def field_simps)
  moreover have "x / 2 powi ?e \<le> of_int n / 2 powi ?e"
    using assms(2) pe by (simp add: divide_right_mono)
  ultimately have "rne (x / 2 powi ?e) \<le> n * 2 ^ nat (- ?e)"
    by (intro rne_le) simp
  then have "(of_int (rne (x / 2 powi ?e)) :: rat) \<le> of_int (n * 2 ^ nat (- ?e))"
    by (simp only: of_int_le_iff)
  then have "(of_int (rne (x / 2 powi ?e)) :: rat) * 2 powi ?e \<le> of_int (n * 2 ^ nat (- ?e)) * 2 powi ?e"
    using pe by (intro mult_right_mono) simp_all
  also have "of_int (n * 2 ^ nat (- ?e)) * 2 powi ?e = (of_int n :: rat)"
    using e by (simp add: power_int_def field_simps)
  finally show ?thesis using assms(1) by (simp add: fl_def Let_def)
qed

lemma fdiv_unit:
  assumes "c \<le> t" "0 < (t::nat)"
  shows "0 \<le> fdiv (of_nat c) (of_nat t)" "fdiv (of_nat c) (of_nat t) \<le> 1"
proof -
  have q: "(0::rat) \<le> of_nat c / of_nat t" "(of_nat c :: rat) / of_nat t \<le> 1"
    using assms by simp_all
  show "0 \<le> fdiv (of_nat c) (of_nat t)"
    using q(1) by (simp add: fdiv_def fl_nonneg)
  show "fdiv (of_nat c) (of_nat t) \<le> 1"
  proof (cases "c = 0")
    case True
    then show ?thesis by (simp add: fdiv_def fl_def)
  next
    case False
    then have "(0::rat) < of_nat c / of_nat t" using assms by simp
    from fl_le_int[OF this, of 1] q(2) show ?thesis by (simp add: fdiv_def)
  qed
qed

lemma fmul_100:
  assumes "0 \<le> a" "a \<le> 1"
  shows "0 \<le> fmul a 100" "fmul a 100 \<le> 100"
proof -
  show "0 \<le> fmul a 100" using assms(1) by (simp add: fmul_def fl_nonneg)
  show "fmul a 100 \<le> 100"
  proof (cases "a = 0")
    case True
    then show ?thesis by (simp add: fmul_def fl_def)
  next
    case False
    then have "0 < a * 100" using assms(1) by simp
    from fl_le_int[OF this, of 100] assms(2) show ?thesis by (simp add: fmul_def)
  qed
qed

lemma percentage_bounds:
  assumes "c \<le> t" "0 < (t::nat)"
  shows "0 \<le> Math_round (fmul (fdiv (of_nat c) (of_nat t)) 100)"
    and "Math_round (fmul (fdiv (of_nat c) (of_nat t)) 100) \<le> 100"
proof -
  let ?b = "fmul (fdiv (of_nat c) (of_nat t)) 100"
  have b: "0 \<le> ?b" "?b \<le> 100"
    using fmul_100[OF fdiv_unit[OF assms]] by simp_all
  show "0 \<le> Math_round ?b" using b(1) by (simp add: Math_round_def)
  have "?b + 1 / 2 < 101" using b(2) by simp
  then have "\<lfloor>?b + 1 / 2\<rfloor> < 101" by (simp add: floor_less_iff)
  then show "Math_round ?b \<le> 100" by (simp add: Math_round_def)
qed

lemma two_step_error:
  fixes a b q :: rat
  assumes "\<bar>b - a * 100\<bar> \<le> e1" "\<bar>a - q\<bar> \<le> e2"
  shows "\<bar>b - 100 * q\<bar> \<le> e1 + 100 * e2"
  using assms by linarith

lemma round_stable:
  fixes b x :: rat
  assumes "\<bar>b - x\<bar> \<le> e" "x + 1 / 2 = of_int k + f" "d \<le> f" "f \<le> 1 - d" "e < d"
  shows "\<lfloor>b + 1 / 2\<rfloor> = k" "\<lfloor>x + 1 / 2\<rfloor> = k"
proof -
  show "\<lfloor>b + 1 / 2\<rfloor> = k"
  proof (rule floor_unique)
    show "of_int k \<le> b + 1 / 2" using assms by linarith
    show "b + 1 / 2 < of_int k + 1" using assms by linarith
  qed
  show "\<lfloor>x + 1 / 2\<rfloor> = k"
  proof (rule floor_unique)
    show "of_int k \<le> x + 1 / 2" using assms by linarith
    show "x + 1 / 2 < of_int k + 1" using assms by linarith
  qed
qed

lemma percentage_error:
  assumes "c \<le> t" "0 < (t::nat)"
  shows "\<bar>fmul (fdiv (of_nat c) (of_nat t)) 100 - 100 * (of_nat c / of_nat t)\<bar> \<le> 200 / 2 ^ 53"
proof (cases "c = 0")
  case True
  then show ?thesis by (simp add: fdiv_def fmul_def fl_def)
next
  case False
  let ?q = "(of_nat c :: rat) / of_nat t"
  let ?a = "fdiv (of_nat c) (of_nat t)"
  have q: "0 < ?q" "?q \<le> 1" using assms False by simp_all
  have ea: "\<bar>?a - ?q\<bar> \<le> 1 / 2 ^ 53"
  proof -
    have "\<bar>?a - ?q\<bar> \<le> ?q / 2 ^ 53" using fl_error[OF q(1)] by (simp add: fdiv_def)
    also have "\<dots> \<le> 1 / 2 ^ 53" using q(2) by (simp add: divide_right_mono)
    finally show ?thesis .
  qed
  have a: "0 \<le> ?a" "?a \<le> 1" using fdiv_unit[OF assms] by simp_all
  have eb: "\<bar>fmul ?a 100 - ?a * 100\<bar> \<le> 100 / 2 ^ 53"
  proof (cases "?a = 0")
    case True
    then show ?thesis by (simp add: fmul_def fl_def)
  next
    case False
    then have p: "0 < ?a * 100" using a(1) by simp
    have "\<bar>fmul ?a 100 - ?a * 100\<bar> \<le> (?a * 100) / 2 ^ 53"
      using fl_error[OF p] by (simp add: fmul_def)
    also have "\<dots> \<le> 100 / 2 ^ 53" using a(2) by (simp add: divide_right_mono)
    finally show ?thesis .
  qed
  have "\<bar>fmul ?a 100 - 100 * ?q\<bar> \<le> 100 / 2 ^ 53 + 100 * (1 / 2 ^ 53)"
    using eb ea by (rule two_step_error)
  then show ?thesis by simp
qed

lemma percentage_exact:
  assumes "c \<le> t" "0 < (t::nat)" "t \<le> 2 ^ 44" "(200 * c + t) mod (2 * t) \<noteq> 0"
  shows "Math_round (fmul (fdiv (of_nat c) (of_nat t)) 100) = Math_round (100 * (of_nat c / of_nat t))"
proof -
  let ?b = "fmul (fdiv (of_nat c) (of_nat t)) 100"
  let ?x = "100 * ((of_nat c :: rat) / of_nat t)"
  let ?N = "200 * c + t" and ?D = "2 * t"
  define k where "k = ?N div ?D"
  define r where "r = ?N mod ?D"
  define f where "f = (of_nat r :: rat) / of_nat ?D"
  have r: "1 \<le> r" "r + 1 \<le> ?D" using assms(2,4) by (simp_all add: r_def Suc_leI)
  have N: "?N = ?D * k + r" by (simp add: k_def r_def)
  have tpos: "(0::rat) < of_nat t" using assms(2) by simp
  have "?x + 1 / 2 = of_nat ?N / of_nat ?D"
    using tpos by (simp add: field_simps)
  also have "(of_nat ?N :: rat) = of_nat (?D * k + r)"
    using N by (simp only:)
  also have "of_nat (?D * k + r) / of_nat ?D = (of_nat k :: rat) + of_nat r / of_nat ?D"
    using tpos by (simp add: field_simps)
  finally have x: "?x + 1 / 2 = of_int (int k) + f" by (simp add: f_def)
  have D: "(256::rat) / 2 ^ 53 \<le> 1 / of_nat ?D"
  proof -
    have "(of_nat ?D :: rat) \<le> of_nat (2 ^ 45)" using assms(3) by (simp only: of_nat_le_iff) simp
    then have "(1::rat) / of_nat (2 ^ 45) \<le> 1 / of_nat ?D"
      using tpos by (intro divide_left_mono) simp_all
    then show ?thesis by simp
  qed
  have "(1::rat) / of_nat ?D \<le> f"
    unfolding f_def using r(1) tpos by (intro divide_right_mono) simp_all
  with D have lo: "256 / 2 ^ 53 \<le> f" by linarith
  have "(of_nat (r + 1) :: rat) \<le> of_nat ?D" using r(2) by (simp only: of_nat_le_iff)
  then have "(of_nat r :: rat) \<le> of_nat ?D - 1" by simp
  then have "f \<le> (of_nat ?D - 1) / of_nat ?D"
    unfolding f_def using tpos by (intro divide_right_mono) simp_all
  also have "\<dots> = 1 - 1 / of_nat ?D" using tpos by (simp add: field_simps)
  finally have "f \<le> 1 - 1 / of_nat ?D" .
  with D have hi: "f \<le> 1 - 256 / 2 ^ 53" by linarith
  have e: "\<bar>?b - ?x\<bar> \<le> 200 / 2 ^ 53" by (rule percentage_error[OF assms(1,2)])
  have "\<lfloor>?b + 1 / 2\<rfloor> = int k" "\<lfloor>?x + 1 / 2\<rfloor> = int k"
    using round_stable[OF e x lo hi] by simp_all
  then show ?thesis by (simp only: Math_round_def)
qed

section \<open>Properties of the course progress\<close>

lemma lesson_fold:
  "foldl (lesson_step p) (nl, nc, k) ls =
     (nl + length ls,
      nc + length (filter (\<lambda>l. is_completed (p (lesson_id l))) ls),
      k + length (filter (\<lambda>l. is_completed (p (lesson_id l))) ls))"
  by (induction ls arbitrary: nl nc k) simp_all

lemma filter_all_iff: "length (filter P xs) = length xs \<longleftrightarrow> list_all P xs"
proof (induction xs)
  case Nil
  show ?case by simp
next
  case (Cons x xs)
  have "length (filter P xs) \<noteq> Suc (length xs)"
    using length_filter_le[of P xs] by linarith
  with Cons show ?case by simp
qed

lemma section_step_eq:
  "section_step p (nl, nc, ns) s =
     (nl + length (lessons_of s),
      nc + length (filter (\<lambda>l. is_completed (p (lesson_id l))) (lessons_of s)),
      ns + (if lessons_of s \<noteq> [] \<and> list_all (\<lambda>l. is_completed (p (lesson_id l))) (lessons_of s)
            then 1 else 0))"
proof (cases "lessons s")
  case None
  then show ?thesis by (simp add: lessons_of_def)
next
  case (Some ls)
  have "(length (filter (\<lambda>l. is_completed (p (lesson_id l))) ls) = length ls) =
        list_all (\<lambda>l. is_completed (p (lesson_id l))) ls"
    by (rule filter_all_iff)
  with Some show ?thesis by (simp add: lessons_of_def lesson_fold Let_def)
qed

lemma section_fold:
  "foldl (section_step p) (nl, nc, ns) ss =
     (nl + length (concat (map lessons_of ss)),
      nc + length (filter (\<lambda>l. is_completed (p (lesson_id l))) (concat (map lessons_of ss))),
      ns + length (filter (\<lambda>s. lessons_of s \<noteq> [] \<and>
                list_all (\<lambda>l. is_completed (p (lesson_id l))) (lessons_of s)) ss))"
proof (induction ss arbitrary: nl nc ns)
  case Nil
  show ?case by simp
next
  case (Cons s ss)
  show ?case by (simp only: foldl_Cons section_step_eq Cons.IH) simp
qed

lemma lesson_done_fun:
  "lesson_done st = (\<lambda>l. is_completed (loadProgressFromStorage st (lesson_id l)))"
  by (rule ext) (simp add: lesson_done_def)

lemma progress_counts:
  "totalLessons (calculateCourseProgress st course) = length (all_lessons course)"
  "completedLessons (calculateCourseProgress st course) =
     length (filter (lesson_done st) (all_lessons course))"
  "completedSections (calculateCourseProgress st course) =
     length (filter (\<lambda>s. lessons_of s \<noteq> [] \<and> every_lesson_done st s) (sections_of course))"
  "totalSections (calculateCourseProgress st course) = length (sections_of course)"
  by (simp_all add: calculateCourseProgress_def no_progress_def all_lessons_def sections_of_def
        section_fold lesson_done_fun every_lesson_done_def Let_def split: option.splits)

lemma progress_percentage:
  "completionPercentage (calculateCourseProgress st course) =
     (if 0 < totalLessons (calculateCourseProgress st course)
      then Math_round (fmul (fdiv (of_nat (completedLessons (calculateCourseProgress st course)))
                                  (of_nat (totalLessons (calculateCourseProgress st course)))) 100)
      else 0)"
  by (simp add: calculateCourseProgress_def no_progress_def section_fold Let_def split: option.splits)

lemma loadProgress_ledger0:
  "loadProgressFromStorage ledger0 =
     [''L1'' \<mapsto> [''completed'' \<mapsto> JBool True,
                ''completedAt'' \<mapsto> JStr (js ''2024-01-01T00:00:00.000Z''),
                ''score'' \<mapsto> JNum 95]]"
  by (simp add: loadProgressFromStorage_def getItem_def parse_or_def ledger0_def)

text \<open>
  C10. For every course argument and every storage, the counts in the result of
  \<open>calculateCourseProgress\<close> are ordered (completed lessons at most total lessons,
  completed sections at most total sections) and the percentage lies between 0 and 100.
  The counts are natural numbers, so none is negative.
\<close>

theorem calculateCourseProgress_bounds:
  "completedLessons (calculateCourseProgress st course) \<le> totalLessons (calculateCourseProgress st course)
   \<and> completedSections (calculateCourseProgress st course) \<le> totalSections (calculateCourseProgress st course)
   \<and> 0 \<le> completionPercentage (calculateCourseProgress st course)
   \<and> completionPercentage (calculateCourseProgress st course) \<le> 100"
proof -
  let ?r = "calculateCourseProgress st course"
  have c: "completedLessons ?r \<le> totalLessons ?r"
    by (simp add: progress_counts)
  have s: "completedSections ?r \<le> totalSections ?r"
    by (simp add: progress_counts)
  have p: "0 \<le> completionPercentage ?r \<and> completionPercentage ?r \<le> 100"
  proof (cases "0 < totalLessons ?r")
    case True
    from percentage_bounds[OF c True] True show ?thesis
      by (simp add: progress_percentage)
  next
    case False
    then show ?thesis by (simp add: progress_percentage)
  qed
  from c s p show ?thesis by simp
qed

text \<open>
  C5 (as amended). \<open>calculateCourseProgress\<close> counts every lesson of every section and
  the lessons that have a completed record. A section counts as completed iff it has at
  least one lesson and every one of its lessons has a completed record. The percentage is
  0 when there are no lessons. Otherwise it is \<open>Math.round((completed / total) * 100)\<close> in
  double precision, which is \<open>100 * completed / total\<close> rounded half up (\<open>exact_percentage\<close>)
  whenever that quotient is not exactly halfway between two whole numbers (for up to
  \<open>2 ^ 44\<close> lessons). What it is at an exact half is left open here.
\<close>

theorem calculateCourseProgress_result:
  "totalLessons (calculateCourseProgress st course) = length (all_lessons course)
   \<and> completedLessons (calculateCourseProgress st course) =
       length (filter (lesson_done st) (all_lessons course))
   \<and> completedSections (calculateCourseProgress st course) =
       length (filter (\<lambda>s. lessons_of s \<noteq> [] \<and> every_lesson_done st s) (sections_of course))
   \<and> (totalLessons (calculateCourseProgress st course) = 0 \<longrightarrow>
        completionPercentage (calculateCourseProgress st course) = 0)
   \<and> (0 < totalLessons (calculateCourseProgress st course)
        \<and> totalLessons (calculateCourseProgress st course) \<le> 2 ^ 44
        \<and> \<not> half_way (completedLessons (calculateCourseProgress st course))
                       (totalLessons (calculateCourseProgress st course)) \<longrightarrow>
        completionPercentage (calculateCourseProgress st course) =
          exact_percentage (completedLessons (calculateCourseProgress st course))
                           (totalLessons (calculateCourseProgress st course)))"
proof -
  let ?r = "calculateCourseProgress st course"
  have c: "completedLessons ?r \<le> totalLessons ?r"
    by (simp add: progress_counts)
  have z: "totalLessons ?r = 0 \<longrightarrow> completionPercentage ?r = 0"
    by (simp add: progress_percentage)
  have e: "0 < totalLessons ?r \<and> totalLessons ?r \<le> 2 ^ 44
           \<and> \<not> half_way (completedLessons ?r) (totalLessons ?r) \<longrightarrow>
           completionPercentage ?r = exact_percentage (completedLessons ?r) (totalLessons ?r)"
  proof (intro impI, elim conjE)
    assume t: "0 < totalLessons ?r" "totalLessons ?r \<le> 2 ^ 44"
      and h: "\<not> half_way (completedLessons ?r) (totalLessons ?r)"
    from h have "(200 * completedLessons ?r + totalLessons ?r) mod (2 * totalLessons ?r) \<noteq> 0"
      by (simp add: half_way_def)
    from percentage_exact[OF c t this] t(1) show
      "completionPercentage ?r = exact_percentage (completedLessons ?r) (totalLessons ?r)"
      by (simp add: progress_percentage exact_percentage_def Math_round_def)
  qed
  from z e show ?thesis by (simp only: progress_counts)
qed

text \<open>
  C5 (as stated) fails: every lesson of a section without lessons has a completed record
  (there is none), yet the section is not counted as completed.
\<close>

theorem empty_section_not_completed:
  "every_lesson_done ledger0 \<lparr>lessons = Some []\<rparr> \<and>
   sections_of (Some empty_section_course) = [\<lparr>lessons = Some []\<rparr>] \<and>
   completedSections (calculateCourseProgress ledger0 (Some empty_section_course)) = 0"
  by (simp add: every_lesson_done_def lessons_of_def sections_of_def empty_section_course_def
        calculateCourseProgress_def Let_def)

text \<open>The amended statement on the spec's scenario: L1 of L1, L2 completed gives 50 percent.\<close>

theorem calculateCourseProgress_result_witness:
  "0 < totalLessons (calculateCourseProgress ledger0 (Some two_lesson_course))
   \<and> totalLessons (calculateCourseProgress ledger0 (Some two_lesson_course)) \<le> 2 ^ 44
   \<and> \<not> half_way (completedLessons (calculateCourseProgress ledger0 (Some two_lesson_course)))
                  (totalLessons (calculateCourseProgress ledger0 (Some two_lesson_course)))
   \<and> totalLessons (calculateCourseProgress ledger0 (Some two_lesson_course)) = 2
   \<and> completedLessons (calculateCourseProgress ledger0 (Some two_lesson_course)) = 1
   \<and> completionPercentage (calculateCourseProgress ledger0 (Some two_lesson_course)) = 50"
proof -
  let ?r = "calculateCourseProgress ledger0 (Some two_lesson_course)"
  note res = calculateCourseProgress_result[of ledger0 "Some two_lesson_course"]
  have ls: "all_lessons (Some two_lesson_course) = [\<lparr>lesson_id = ''L1''\<rparr>, \<lparr>lesson_id = ''L2''\<rparr>]"
    by (simp add: all_lessons_def sections_of_def two_lesson_course_def lessons_of_def)
  have t: "totalLessons ?r = 2" using res by (simp add: ls)
  have c: "completedLessons ?r = 1"
    using res by (simp add: ls lesson_done_def loadProgress_ledger0 is_completed_def)
  have h: "\<not> half_way 1 2" by (simp add: half_way_def)
  have e: "exact_percentage 1 2 = 50" by code_simp
  from res have "0 < totalLessons ?r \<and> totalLessons ?r \<le> 2 ^ 44
      \<and> \<not> half_way (completedLessons ?r) (totalLessons ?r) \<longrightarrow>
      completionPercentage ?r = exact_percentage (completedLessons ?r) (totalLessons ?r)"
    by blast
  then have "completionPercentage ?r = exact_percentage 1 2"
    unfolding t c using h by simp
  with e have p: "completionPercentage ?r = 50" by simp
  from t c h p show ?thesis by simp
qed

text \<open>
  At an exact half the two roundings of the double computation can fall below it: with
  23 of 40 lessons completed the code reports 57, while 57.5 rounded half up is 58.
\<close>

lemma percentage_23_of_40:
  "Math_round (fmul (fdiv 23 40) 100) = 57 \<and> exact_percentage 23 40 = 58 \<and> half_way 23 40"
  by code_simp

section \<open>Properties of the analytics\<close>

lemma ratings_fold:
  "foldl (\<lambda>sum c. fadd sum (or0 (rating c))) a cs = foldl fadd a (map rating_or_zero cs)"
  by (induction cs arbitrary: a) (simp_all add: or0_def rating_or_zero_def split: option.splits)

text \<open>
  Every rounding of a nonnegative number changes it by a factor between \<open>1 - 2^-53\<close> and
  \<open>1 + 2^-53\<close>, so the sum, the mean and ten times the mean are computed up to such
  factors, one for each operation.
\<close>

lemma rel_bounds:
  fixes x y u :: rat
  assumes "\<bar>y - x\<bar> \<le> x * u"
  shows "x * (1 - u) \<le> y" "y \<le> x * (1 + u)"
  using assms by (simp_all add: abs_le_iff algebra_simps)

lemma fl_close:
  assumes "0 \<le> x"
  shows "\<bar>fl x - x\<bar> \<le> x / 2 ^ 53"
proof (cases "x = 0")
  case True
  then show ?thesis by (simp add: fl_def)
next
  case False
  with assms have "0 < x" by simp
  then show ?thesis by (rule fl_error)
qed

lemma fl_bounds:
  assumes "0 \<le> x"
  shows "x * (1 - 1 / 2 ^ 53) \<le> fl x" "fl x \<le> x * (1 + 1 / 2 ^ 53)"
proof -
  have "\<bar>fl x - x\<bar> \<le> x / 2 ^ 53" using assms by (rule fl_close)
  then have "\<bar>fl x - x\<bar> \<le> x * (1 / 2 ^ 53)" by (simp only: times_divide_eq_right mult_1_right)
  then show "x * (1 - 1 / 2 ^ 53) \<le> fl x" "fl x \<le> x * (1 + 1 / 2 ^ 53)"
    by (rule rel_bounds)+
qed

lemma sum_bounds:
  fixes u :: rat
  assumes "\<forall>r\<in>set rs. 0 \<le> r" "0 \<le> s" "s * (1 - 1 / 2 ^ 53) ^ k \<le> a" "a \<le> s * (1 + 1 / 2 ^ 53) ^ k"
  shows "(s + sum_list rs) * (1 - 1 / 2 ^ 53) ^ (k + length rs) \<le> foldl fadd a rs \<and>
         foldl fadd a rs \<le> (s + sum_list rs) * (1 + 1 / 2 ^ 53) ^ (k + length rs)"
  using assms
proof (induction rs arbitrary: a s k)
  case Nil
  then show ?case by simp
next
  case (Cons r rs)
  let ?lo = "(1 - 1 / 2 ^ 53) :: rat" and ?hi = "(1 + 1 / 2 ^ 53) :: rat"
  have lo: "0 \<le> ?lo" "?lo \<le> 1" and hi: "1 \<le> ?hi" by simp_all
  have r: "0 \<le> r" using Cons.prems(1) by simp
  have a0: "0 \<le> a"
  proof -
    have "0 \<le> s * ?lo ^ k" using Cons.prems(2) lo(1) by simp
    with Cons.prems(3) show ?thesis by linarith
  qed
  have lok: "?lo ^ k \<le> 1" using lo by (simp add: power_le_one)
  have hik: "1 \<le> ?hi ^ k" using hi by (rule one_le_power)
  have "r * ?lo ^ k \<le> r" using r lok by (simp add: mult_left_le)
  then have l1: "(s + r) * ?lo ^ k \<le> a + r" using Cons.prems(3) by (simp add: algebra_simps)
  have "r \<le> r * ?hi ^ k" using r hik by (simp add: mult_le_cancel_left1)
  then have h1: "a + r \<le> (s + r) * ?hi ^ k" using Cons.prems(4) by (simp add: algebra_simps)
  have b: "(a + r) * ?lo \<le> fl (a + r)" "fl (a + r) \<le> (a + r) * ?hi"
    using fl_bounds[of "a + r"] a0 r by simp_all
  have "(s + r) * ?lo ^ k * ?lo \<le> (a + r) * ?lo" using l1 lo(1) by (rule mult_right_mono)
  with b(1) have l2: "(s + r) * ?lo ^ Suc k \<le> fadd a r" by (simp add: fadd_def mult.assoc)
  have "(a + r) * ?hi \<le> (s + r) * ?hi ^ k * ?hi" using h1 by (rule mult_right_mono) simp
  with b(2) have h2: "fadd a r \<le> (s + r) * ?hi ^ Suc k" by (simp add: fadd_def mult.assoc)
  have "(s + r + sum_list rs) * ?lo ^ (Suc k + length rs) \<le> foldl fadd (fadd a r) rs \<and>
        foldl fadd (fadd a r) rs \<le> (s + r + sum_list rs) * ?hi ^ (Suc k + length rs)"
    using Cons.prems(1,2) r l2 h2 by (intro Cons.IH) simp_all
  then show ?case by (simp add: add.assoc)
qed

lemma pow_upper:
  fixes u :: rat
  assumes "0 \<le> u" "2 * of_nat k * u \<le> 1"
  shows "(1 + u) ^ k \<le> 1 + 2 * of_nat k * u"
  using assms(2)
proof (induction k)
  case 0
  show ?case by simp
next
  case (Suc k)
  have k: "2 * of_nat k * u \<le> 1"
  proof -
    have "2 * of_nat k * u \<le> 2 * of_nat (Suc k) * u"
      using assms(1) by (simp add: algebra_simps)
    with Suc.prems show ?thesis by linarith
  qed
  then have ih: "(1 + u) ^ k \<le> 1 + 2 * of_nat k * u" by (rule Suc.IH)
  have "(1 + u) ^ Suc k = (1 + u) ^ k * (1 + u)" by simp
  also have "\<dots> \<le> (1 + 2 * of_nat k * u) * (1 + u)"
    using ih assms(1) by (intro mult_right_mono) simp_all
  also have "\<dots> = 1 + 2 * of_nat k * u + u + (2 * of_nat k * u) * u" by (simp add: algebra_simps)
  also have "\<dots> \<le> 1 + 2 * of_nat k * u + u + 1 * u"
    using k assms(1) by (intro add_left_mono mult_right_mono) simp_all
  also have "\<dots> = 1 + 2 * of_nat (Suc k) * u" by (simp add: algebra_simps)
  finally show ?case .
qed

lemma pow_lower:
  fixes u :: rat
  assumes "0 \<le> u" "u \<le> 1"
  shows "1 - of_nat k * u \<le> (1 - u) ^ k"
  using Bernoulli_inequality[of "- u" k] assms by simp

lemma round_near:
  fixes p x e :: rat
  assumes "\<bar>p - x\<bar> \<le> e" "e < half_distance x"
  shows "\<lfloor>p + 1 / 2\<rfloor> = \<lfloor>x + 1 / 2\<rfloor>"
proof -
  define g :: rat where "g = of_int \<lfloor>x\<rfloor>"
  have f: "g \<le> x" "x < g + 1" unfolding g_def by linarith+
  have h: "e < \<bar>x - g - 1 / 2\<bar>" using assms(2) by (simp add: half_distance_def g_def)
  have g1: "(of_int (\<lfloor>x\<rfloor> + 1) :: rat) = g + 1" by (simp add: g_def)
  show ?thesis
  proof (cases "x - g < 1 / 2")
    case True
    have "\<lfloor>x + 1 / 2\<rfloor> = \<lfloor>x\<rfloor>"
    proof (rule floor_unique)
      show "of_int \<lfloor>x\<rfloor> \<le> x + 1 / 2" using f unfolding g_def by linarith
      show "x + 1 / 2 < of_int \<lfloor>x\<rfloor> + 1" using True unfolding g_def by linarith
    qed
    moreover have "\<lfloor>p + 1 / 2\<rfloor> = \<lfloor>x\<rfloor>"
    proof (rule floor_unique)
      show "of_int \<lfloor>x\<rfloor> \<le> p + 1 / 2" using assms(1) h f True unfolding g_def by linarith
      show "p + 1 / 2 < of_int \<lfloor>x\<rfloor> + 1" using assms(1) h f True unfolding g_def by linarith
    qed
    ultimately show ?thesis by simp
  next
    case False
    have "\<lfloor>x + 1 / 2\<rfloor> = \<lfloor>x\<rfloor> + 1"
    proof (rule floor_unique)
      show "of_int (\<lfloor>x\<rfloor> + 1) \<le> x + 1 / 2" unfolding g1 using False by linarith
      show "x + 1 / 2 < of_int (\<lfloor>x\<rfloor> + 1) + 1" unfolding g1 using f by linarith
    qed
    moreover have "\<lfloor>p + 1 / 2\<rfloor> = \<lfloor>x\<rfloor> + 1"
    proof (rule floor_unique)
      show "of_int (\<lfloor>x\<rfloor> + 1) \<le> p + 1 / 2" unfolding g1 using assms(1) h f False by linarith
      show "p + 1 / 2 < of_int (\<lfloor>x\<rfloor> + 1) + 1" unfolding g1 using assms(1) h f False by linarith
    qed
    ultimately show ?thesis by simp
  qed
qed

lemma three_steps_low:
  fixes S F m p n L lo :: rat
  assumes "0 \<le> lo" "0 < n" "S * L \<le> F" "F / n * lo \<le> m" "m * 10 * lo \<le> p"
  shows "10 * (S / n) * (L * lo * lo) \<le> p"
proof -
  have "S * L / n \<le> F / n" using assms(2,3) by (simp add: divide_right_mono)
  then have "S * L / n * lo \<le> F / n * lo" using assms(1) by (rule mult_right_mono)
  with assms(4) have "S * L / n * lo \<le> m" by linarith
  then have "S * L / n * lo * 10 \<le> m * 10" by (rule mult_right_mono) simp
  then have "S * L / n * lo * 10 * lo \<le> m * 10 * lo" using assms(1) by (rule mult_right_mono)
  with assms(5) have "S * L / n * lo * 10 * lo \<le> p" by linarith
  moreover have "S * L / n * lo * 10 * lo = 10 * (S / n) * (L * lo * lo)" by (simp add: algebra_simps)
  ultimately show ?thesis by (simp only:)
qed

lemma three_steps_high:
  fixes S F m p n H hi :: rat
  assumes "0 \<le> hi" "0 < n" "F \<le> S * H" "m \<le> F / n * hi" "p \<le> m * 10 * hi"
  shows "p \<le> 10 * (S / n) * (H * hi * hi)"
proof -
  have "F / n \<le> S * H / n" using assms(2,3) by (simp add: divide_right_mono)
  then have "F / n * hi \<le> S * H / n * hi" using assms(1) by (rule mult_right_mono)
  with assms(4) have "m \<le> S * H / n * hi" by linarith
  then have "m * 10 \<le> S * H / n * hi * 10" by (rule mult_right_mono) simp
  then have "m * 10 * hi \<le> S * H / n * hi * 10 * hi" using assms(1) by (rule mult_right_mono)
  with assms(5) have "p \<le> S * H / n * hi * 10 * hi" by linarith
  moreover have "S * H / n * hi * 10 * hi = 10 * (S / n) * (H * hi * hi)" by (simp add: algebra_simps)
  ultimately show ?thesis by (simp only:)
qed

lemma margin_bounds:
  fixes x p u c lo hi :: rat
  assumes "0 \<le> x" "x * lo \<le> p" "p \<le> x * hi" "1 - 2 * c * u \<le> lo" "hi \<le> 1 + 2 * c * u"
  shows "\<bar>p - x\<bar> \<le> x * (2 * c * u)"
proof -
  have "x * (1 - 2 * c * u) \<le> x * lo" using assms(4,1) by (rule mult_left_mono)
  with assms(2) have l: "x * (1 - 2 * c * u) \<le> p" by linarith
  have "x * hi \<le> x * (1 + 2 * c * u)" using assms(5,1) by (rule mult_left_mono)
  with assms(3) have h: "p \<le> x * (1 + 2 * c * u)" by linarith
  from l h show ?thesis by (simp add: abs_le_iff algebra_simps)
qed

lemma average_error:
  assumes n: "rs \<noteq> []" and r: "\<forall>r\<in>set rs. 0 \<le> r" and k: "length rs + 2 \<le> 2 ^ 52"
  shows "\<bar>fmul (fdiv (foldl fadd 0 rs) (of_nat (length rs))) 10 - 10 * exact_mean rs\<bar>
         \<le> rounding_margin (length rs) (10 * exact_mean rs)"
proof -
  define u :: rat where "u = 1 / 2 ^ 53"
  define c :: rat where "c = of_nat (length rs + 2)"
  let ?n = "length rs"
  let ?S = "sum_list rs"
  let ?F = "foldl fadd 0 rs"
  let ?m = "fdiv ?F (of_nat ?n)"
  let ?p = "fmul ?m 10"
  let ?x = "10 * exact_mean rs"
  have u: "0 \<le> u" "u \<le> 1" by (simp_all add: u_def)
  have lo: "0 \<le> 1 - u" and hi: "0 \<le> 1 + u" using u by simp_all
  note flb = fl_bounds[folded u_def]
  have npos: "(0::rat) < of_nat ?n" using n by simp
  have S: "0 \<le> ?S" using r by (simp add: sum_list_nonneg)
  have x: "0 \<le> ?x" using S by (simp add: exact_mean_def)
  have "(0 + ?S) * (1 - u) ^ (0 + ?n) \<le> ?F \<and> ?F \<le> (0 + ?S) * (1 + u) ^ (0 + ?n)"
    unfolding u_def using r by (intro sum_bounds) simp_all
  then have F: "?S * (1 - u) ^ ?n \<le> ?F" "?F \<le> ?S * (1 + u) ^ ?n" by simp_all
  have F0: "0 \<le> ?F"
  proof -
    have "0 \<le> ?S * (1 - u) ^ ?n" using S lo by simp
    with F(1) show ?thesis by linarith
  qed
  have q0: "0 \<le> ?F / of_nat ?n" using F0 by simp
  have m: "?F / of_nat ?n * (1 - u) \<le> ?m" "?m \<le> ?F / of_nat ?n * (1 + u)"
    using flb[OF q0] by (simp_all only: fdiv_def)
  have m0: "0 \<le> ?m * 10"
  proof -
    have "0 \<le> ?F / of_nat ?n * (1 - u)" using q0 lo by (rule mult_nonneg_nonneg)
    with m(1) show ?thesis by linarith
  qed
  have p: "?m * 10 * (1 - u) \<le> ?p" "?p \<le> ?m * 10 * (1 + u)"
    using flb[OF m0] by (simp_all only: fmul_def)
  have xe: "?x = 10 * (?S / of_nat ?n)" by (simp add: exact_mean_def)
  have "10 * (?S / of_nat ?n) * ((1 - u) ^ ?n * (1 - u) * (1 - u)) \<le> ?p"
    using lo npos F(1) m(1) p(1) by (rule three_steps_low)
  then have low: "?x * (1 - u) ^ (?n + 2) \<le> ?p"
    by (simp only: xe power_add power2_eq_square mult.assoc)
  have "?p \<le> 10 * (?S / of_nat ?n) * ((1 + u) ^ ?n * (1 + u) * (1 + u))"
    using hi npos F(2) m(2) p(2) by (rule three_steps_high)
  then have high: "?p \<le> ?x * (1 + u) ^ (?n + 2)"
    by (simp only: xe power_add power2_eq_square mult.assoc)
  have "(of_nat (?n + 2) :: rat) \<le> of_nat (2 ^ 52)" using k by (simp only: of_nat_le_iff)
  then have c52: "c \<le> 2 ^ 52" by (simp add: c_def)
  have "2 * c * u = c * (1 / 2 ^ 52)" by (simp add: u_def)
  also have "\<dots> \<le> 2 ^ 52 * (1 / 2 ^ 52)" using c52 by (intro mult_right_mono) simp_all
  finally have cu: "2 * c * u \<le> 1" by simp
  have up: "(1 + u) ^ (?n + 2) \<le> 1 + 2 * c * u"
    unfolding c_def using u(1) cu[unfolded c_def] by (rule pow_upper)
  have c0: "0 \<le> c" by (simp add: c_def)
  have "1 - c * u \<le> (1 - u) ^ (?n + 2)" unfolding c_def using u by (rule pow_lower)
  moreover have "0 \<le> c * u" using c0 u(1) by simp
  ultimately have dn: "1 - 2 * c * u \<le> (1 - u) ^ (?n + 2)" by linarith
  have mg: "rounding_margin ?n ?x = ?x * (2 * c * u)"
    by (simp add: rounding_margin_def c_def u_def)
  show ?thesis unfolding mg using x low high dn up by (rule margin_bounds)
qed

text \<open>
  C9 (as amended). \<open>averageRating\<close> is 0 when the argument is not an array and when the list
  is empty. For a list of fewer than \<open>2^52 - 1\<close> courses with nonnegative ratings, a missing
  rating counting as 0, it is the double nearest to the mean rounded to one decimal place
  (halves up), and so within a relative \<open>2^-53\<close> of that decimal, provided that ten times
  the mean is farther from the nearest half (a number halfway between two integers) than
  the rounding margin, which is ten times the mean times \<open>(n + 2) / 2^52\<close> for \<open>n\<close>
  courses. Closer to a half than that, the statement says nothing.
\<close>

theorem averageRating_rounds_mean:
  "averageRating (calculateCourseAnalytics None) = 0 \<and>
   averageRating (calculateCourseAnalytics (Some [])) = 0 \<and>
   (cs \<noteq> [] \<and> (\<forall>c\<in>set cs. 0 \<le> rating_or_zero c) \<and> length cs + 2 \<le> 2 ^ 52 \<and>
    rounding_margin (length cs) (10 * exact_mean (map rating_or_zero cs))
      < half_distance (10 * exact_mean (map rating_or_zero cs)) \<longrightarrow>
    averageRating (calculateCourseAnalytics (Some cs)) =
      fl (nearest_tenth (exact_mean (map rating_or_zero cs))) \<and>
    \<bar>averageRating (calculateCourseAnalytics (Some cs)) - nearest_tenth (exact_mean (map rating_or_zero cs))\<bar>
      \<le> nearest_tenth (exact_mean (map rating_or_zero cs)) / 2 ^ 53)"
proof (intro conjI impI)
  show "averageRating (calculateCourseAnalytics None) = 0"
    by (simp add: calculateCourseAnalytics_def)
  show "averageRating (calculateCourseAnalytics (Some [])) = 0"
    by (simp add: calculateCourseAnalytics_def)
next
  let ?rs = "map rating_or_zero cs"
  let ?x = "10 * exact_mean ?rs"
  assume a: "cs \<noteq> [] \<and> (\<forall>c\<in>set cs. 0 \<le> rating_or_zero c) \<and> length cs + 2 \<le> 2 ^ 52 \<and>
    rounding_margin (length cs) ?x < half_distance ?x"
  let ?p = "fmul (fdiv (foldl fadd 0 ?rs) (of_nat (length ?rs))) 10"
  have "\<bar>?p - ?x\<bar> \<le> rounding_margin (length ?rs) ?x"
    using a by (intro average_error) simp_all
  moreover have "rounding_margin (length ?rs) ?x < half_distance ?x" using a by simp
  ultimately have "\<lfloor>?p + 1 / 2\<rfloor> = \<lfloor>?x + 1 / 2\<rfloor>" by (rule round_near)
  then have r: "Math_round ?p = \<lfloor>?x + 1 / 2\<rfloor>" by (simp only: Math_round_def)
  have "averageRating (calculateCourseAnalytics (Some cs)) = fdiv (of_int (Math_round ?p)) 10"
    using a by (simp add: calculateCourseAnalytics_def Let_def ratings_fold)
  also have "\<dots> = fl (nearest_tenth (exact_mean ?rs))"
    by (simp only: r) (simp only: fdiv_def nearest_tenth_def)
  finally show e: "averageRating (calculateCourseAnalytics (Some cs)) = fl (nearest_tenth (exact_mean ?rs))" .
  have "0 \<le> sum_list ?rs" using a by (intro sum_list_nonneg) auto
  then have "0 \<le> ?x" by (simp add: exact_mean_def)
  then have "(0::int) \<le> \<lfloor>?x + 1 / 2\<rfloor>" by simp
  then have "0 \<le> nearest_tenth (exact_mean ?rs)" by (simp add: nearest_tenth_def)
  then show "\<bar>averageRating (calculateCourseAnalytics (Some cs)) - nearest_tenth (exact_mean ?rs)\<bar>
      \<le> nearest_tenth (exact_mean ?rs) / 2 ^ 53"
    unfolding e by (rule fl_close)
qed

text \<open>
  C9 (as stated) fails next to a half: two courses rated 1.15, which as a double is a
  little less than 1.15, have a mean that rounds to 1.1, but ten times the computed mean
  rounds to 11.5 and \<open>averageRating\<close> is 1.2.
\<close>

theorem averageRating_near_half:
  "averageRating (calculateCourseAnalytics (Some [rated (fl (23 / 20)), rated (fl (23 / 20))])) = fl (12 / 10) \<and>
   exact_mean (map rating_or_zero [rated (fl (23 / 20)), rated (fl (23 / 20))]) < 23 / 20 \<and>
   nearest_tenth (exact_mean (map rating_or_zero [rated (fl (23 / 20)), rated (fl (23 / 20))])) = 11 / 10 \<and>
   fl (12 / 10) \<noteq> fl (11 / 10) \<and> fl (12 / 10) \<noteq> 11 / 10"
  by code_simp

text \<open>
  The amended statement on ratings 4, 4 and 5: the mean is 13/3 and the result is 4.3.
\<close>

theorem averageRating_rounds_mean_witness:
  "0 \<le> rating_or_zero (rated 4) \<and> 0 \<le> rating_or_zero (rated 5) \<and>
   rounding_margin 3 (10 * (13 / 3)) < half_distance (10 * (13 / 3)) \<and>
   exact_mean (map rating_or_zero [rated 4, rated 4, rated 5]) = 13 / 3 \<and>
   nearest_tenth (13 / 3) = 43 / 10 \<and>
   averageRating (calculateCourseAnalytics (Some [rated 4, rated 4, rated 5])) = fl (43 / 10)"
proof -
  let ?cs = "[rated 4, rated 4, rated 5]"
  have m: "exact_mean (map rating_or_zero ?cs) = 13 / 3" by code_simp
  have t: "nearest_tenth (13 / 3) = 43 / 10" by code_simp
  have h: "rounding_margin (length ?cs) (10 * exact_mean (map rating_or_zero ?cs))
           < half_distance (10 * exact_mean (map rating_or_zero ?cs))"
    by code_simp
  have p: "\<forall>c\<in>set ?cs. 0 \<le> rating_or_zero c"
    by (simp add: rated_def rating_or_zero_def)
  have n: "?cs \<noteq> []" and k: "length ?cs + 2 \<le> 2 ^ 52" by simp_all
  have "averageRating (calculateCourseAnalytics (Some ?cs)) =
        fl (nearest_tenth (exact_mean (map rating_or_zero ?cs)))"
    using averageRating_rounds_mean[of ?cs] n p k h by blast
  then have "averageRating (calculateCourseAnalytics (Some ?cs)) = fl (43 / 10)"
    by (simp only: m t)
  moreover have "rounding_margin 3 (10 * (13 / 3)) < half_distance (10 * (13 / 3))" by code_simp
  moreover have "0 \<le> rating_or_zero (rated 4)" "0 \<le> rating_or_zero (rated 5)" using p by simp_all
  ultimately show ?thesis using m t by (intro conjI)
qed

section \<open>Properties of the sanitizer\<close>

lemmas chars = LT_def GT_def AMP_def SP_def NL_def js_def




lemma removeTags_id: "\<not> containsHtmlTags s \<Longrightarrow> removeTags s = s"
  by (induction s) auto







lemma collapse_ws_hd: "s \<noteq> [] \<Longrightarrow> \<not> is_space (hd s) \<Longrightarrow> hd (collapse_ws s) = hd s \<and> collapse_ws s \<noteq> []"
  by (cases s) auto

lemma dropWhile_hd: "dropWhile P xs \<noteq> [] \<Longrightarrow> \<not> P (hd (dropWhile P xs))"
  by (simp add: hd_dropWhile)

lemma collapse_ws_nil: "collapse_ws s = [] \<longleftrightarrow> s = []"
  by (cases s) auto

lemma spaced_collapse_ws: "spaced (collapse_ws s)"
proof (induction s rule: collapse_ws.induct)
  case 1
  show ?case by simp
next
  case (2 c cs)
  show ?case
  proof (cases "is_space c")
    case True
    let ?d = "dropWhile is_space cs"
    have "collapse_ws ?d = [] \<or> \<not> is_space (hd (collapse_ws ?d))"
    proof (cases "?d = []")
      case True
      then have "collapse_ws ?d = []" by (simp only: collapse_ws.simps)
      then show ?thesis by blast
    next
      case False
      then have "\<not> is_space (hd ?d)" by (rule dropWhile_hd)
      with False show ?thesis using collapse_ws_hd[of ?d] by simp
    qed
    with True 2 show ?thesis by simp
  next
    case False
    with 2 show ?thesis by simp
  qed
qed

lemma collapse_ws_spaced: "spaced s \<Longrightarrow> collapse_ws s = s"
proof (induction s)
  case Nil
  show ?case by simp
next
  case (Cons c cs)
  show ?case
  proof (cases "is_space c")
    case True
    with Cons.prems have c: "c = SP" and h: "cs = [] \<or> \<not> is_space (hd cs)" by simp_all
    from h have "dropWhile is_space cs = cs" by (cases cs) auto
    with True c Cons show ?thesis by simp
  next
    case False
    with Cons show ?thesis by simp
  qed
qed

lemma spaced_append: "spaced (xs @ ys) \<Longrightarrow> spaced xs \<and> spaced ys"
proof (induction xs)
  case Nil
  then show ?case by simp
next
  case (Cons x xs)
  then show ?case by (cases xs) auto
qed

lemma spaced_trim: "spaced s \<Longrightarrow> spaced (trim s)"
proof -
  assume a: "spaced s"
  let ?t = "dropWhile is_space s"
  have "s = takeWhile is_space s @ ?t" by simp
  with a have t: "spaced ?t" using spaced_append by metis
  have "?t = rev (dropWhile is_space (rev ?t)) @ rev (takeWhile is_space (rev ?t))"
    by (metis rev_append rev_rev_ident takeWhile_dropWhile_id)
  with t have "spaced (rev (dropWhile is_space (rev ?t)))" using spaced_append by metis
  then show ?thesis by (simp add: trim_def)
qed

lemma dropWhile_self: "xs = [] \<or> \<not> P (hd xs) \<Longrightarrow> dropWhile P xs = xs"
  by (cases xs) auto

lemma trim_hd: "trim s = [] \<or> \<not> is_space (hd (trim s))"
proof (cases "trim s = []")
  case True
  then show ?thesis by simp
next
  case False
  let ?t = "dropWhile is_space s"
  let ?u = "dropWhile is_space (rev ?t)"
  have u: "?u \<noteq> []" using False by (simp add: trim_def)
  then have t: "?t \<noteq> []" by (metis dropWhile.simps(1) rev.simps(1))
  have "?t = rev ?u @ rev (takeWhile is_space (rev ?t))"
    by (metis rev_append rev_rev_ident takeWhile_dropWhile_id)
  then have "hd ?t = hd (rev ?u)" using u by (metis hd_append2 rev_is_Nil_conv)
  moreover have "\<not> is_space (hd ?t)" using t by (rule dropWhile_hd)
  ultimately show ?thesis by (simp add: trim_def)
qed

lemma trim_trim: "trim (trim s) = trim s"
proof -
  have a: "dropWhile is_space (trim s) = trim s"
    using trim_hd[of s] by (rule dropWhile_self)
  have "rev (trim s) = dropWhile is_space (rev (dropWhile is_space s))"
    by (simp add: trim_def)
  then have "dropWhile is_space (rev (trim s)) = rev (trim s)"
    by (simp add: dropWhile_idem)
  with a show ?thesis by (simp add: trim_def[of "trim s"])
qed

lemma replaceAll_id: "\<not> occurs pat s \<Longrightarrow> replaceAll pat rep s = s"
  by (induction s) auto





lemma spaced_only_SP: "spaced s \<Longrightarrow> c \<in> set s \<Longrightarrow> is_space c \<Longrightarrow> c = SP"
  by (induction s) auto

lemma blank_lines_id: "NL \<notin> set s \<Longrightarrow> blank_lines s = s"
  by (induction s) auto

lemma blank_lines_spaced: "spaced s \<Longrightarrow> blank_lines s = s"
proof (rule blank_lines_id)
  assume a: "spaced s"
  have "is_space NL" "NL \<noteq> SP" by (simp_all add: is_space_def chars)
  with a show "NL \<notin> set s" using spaced_only_SP by blast
qed

lemma dom_normalised: "trim (blank_lines (collapse_ws t)) = trim (collapse_ws t)"
  by (simp add: blank_lines_spaced spaced_collapse_ws)

lemma price_test_value: "stripHtmlTags no_dom price_test = price_text"
  by (simp add: stripHtmlTags_def no_dom_def regex_fallback_def trim_def is_space_def chars
        price_test_def price_text_def)




lemma fallback_decode: "regex_fallback s = trim (collapse_ws (decode_entities (removeTags s)))"
  by (simp add: regex_fallback_def decode_entities_def entities_def)

lemma length_removeTags: "length (removeTags s) \<le> length s"
proof (induction s rule: removeTags.induct)
  case 1
  show ?case by simp
next
  case (2 c cs)
  have "length (tl (dropWhile (\<lambda>x. x \<noteq> GT) cs)) \<le> length cs"
    using length_dropWhile_le[of "\<lambda>x. x \<noteq> GT" cs] by simp
  with 2 show ?case by auto
qed

lemma removeTags_shorter: "containsHtmlTags s \<Longrightarrow> length (removeTags s) < length s"
proof (induction s rule: removeTags.induct)
  case 1
  then show ?case by simp
next
  case (2 c cs)
  show ?case
  proof (cases "c = LT \<and> GT \<in> set cs")
    case True
    have "length (removeTags (tl (dropWhile (\<lambda>x. x \<noteq> GT) cs))) \<le> length (tl (dropWhile (\<lambda>x. x \<noteq> GT) cs))"
      by (rule length_removeTags)
    also have "\<dots> \<le> length cs"
      using length_dropWhile_le[of "\<lambda>x. x \<noteq> GT" cs] by simp
    finally show ?thesis using True by simp
  next
    case False
    with "2.prems" have "containsHtmlTags cs" by auto
    with False 2 show ?thesis by auto
  qed
qed

lemma take_length: "take (length p) xs = p \<Longrightarrow> length p \<le> length xs"
proof -
  assume a: "take (length p) xs = p"
  from arg_cong[OF a, of length] show ?thesis by simp
qed

lemma length_replaceAll:
  "length rep \<le> length pat \<Longrightarrow> length (replaceAll pat rep s) \<le> length s"
proof (induction pat rep s rule: replaceAll.induct)
  case (1 pat rep)
  show ?case by simp
next
  case (2 pat rep c cs)
  show ?case
  proof (cases "pat \<noteq> [] \<and> take (length pat) (c # cs) = pat")
    case True
    then have l: "length pat \<le> length (c # cs)" by (intro take_length) simp
    have "length (replaceAll pat rep (drop (length pat) (c # cs))) \<le> length (c # cs) - length pat"
      using 2 True by simp
    with True l "2.prems" show ?thesis by simp
  next
    case False
    with 2 show ?thesis by auto
  qed
qed

lemma replaceAll_shorter:
  "length rep < length pat \<Longrightarrow> occurs pat s \<Longrightarrow> length (replaceAll pat rep s) < length s"
proof (induction pat rep s rule: replaceAll.induct)
  case (1 pat rep)
  then show ?case by simp
next
  case (2 pat rep c cs)
  have ne: "pat \<noteq> []" using "2.prems"(1) by auto
  show ?case
  proof (cases "take (length pat) (c # cs) = pat")
    case True
    then have l: "length pat \<le> length (c # cs)" by (intro take_length) simp
    have "length (replaceAll pat rep (drop (length pat) (c # cs))) \<le> length (c # cs) - length pat"
      using length_replaceAll[of rep pat "drop (length pat) (c # cs)"] "2.prems"(1) by simp
    with True ne l "2.prems"(1) show ?thesis by simp
  next
    case False
    with "2.prems" have "occurs pat cs" by simp
    with False 2 show ?thesis by auto
  qed
qed

lemma length_collapse_ws: "length (collapse_ws s) \<le> length s"
proof (induction s rule: collapse_ws.induct)
  case 1
  show ?case by simp
next
  case (2 c cs)
  have "length (dropWhile is_space cs) \<le> length cs" by (rule length_dropWhile_le)
  with 2 show ?case by auto
qed

lemma length_trim: "length (trim s) \<le> length s"
proof -
  have "length (trim s) \<le> length (dropWhile is_space s)"
    using length_dropWhile_le[of is_space "rev (dropWhile is_space s)"] by (simp add: trim_def)
  also have "\<dots> \<le> length s" by (rule length_dropWhile_le)
  finally show ?thesis .
qed

lemma fold_decode_id:
  "\<forall>e\<in>set es. \<not> occurs (fst e) t \<Longrightarrow> fold (\<lambda>e. replaceAll (fst e) (snd e)) es t = t"
  by (induction es) (simp_all add: replaceAll_id)

lemma fold_decode_length:
  "\<forall>e\<in>set es. length (snd e) \<le> length (fst e) \<Longrightarrow>
   length (fold (\<lambda>e. replaceAll (fst e) (snd e)) es t) \<le> length t"
proof (induction es arbitrary: t)
  case Nil
  show ?case by simp
next
  case (Cons e es)
  have "length (fold (\<lambda>e. replaceAll (fst e) (snd e)) es (replaceAll (fst e) (snd e) t))
        \<le> length (replaceAll (fst e) (snd e) t)"
    using Cons.prems by (intro Cons.IH) simp
  also have "\<dots> \<le> length t" using Cons.prems by (intro length_replaceAll) simp
  finally show ?case by simp
qed

lemma fold_decode_shorter:
  "\<forall>e\<in>set es. length (snd e) < length (fst e) \<Longrightarrow> \<exists>e\<in>set es. occurs (fst e) t \<Longrightarrow>
   length (fold (\<lambda>e. replaceAll (fst e) (snd e)) es t) < length t"
proof (induction es arbitrary: t)
  case Nil
  then show ?case by simp
next
  case (Cons e es)
  have le: "\<forall>e\<in>set es. length (snd e) \<le> length (fst e)" using Cons.prems(1) by (simp add: less_imp_le)
  show ?case
  proof (cases "occurs (fst e) t")
    case True
    have "length (fold (\<lambda>e. replaceAll (fst e) (snd e)) es (replaceAll (fst e) (snd e) t))
          \<le> length (replaceAll (fst e) (snd e) t)"
      using le by (rule fold_decode_length)
    also have "\<dots> < length t" using Cons.prems(1) True by (intro replaceAll_shorter) simp_all
    finally show ?thesis by simp
  next
    case False
    then have "replaceAll (fst e) (snd e) t = t" by (rule replaceAll_id)
    moreover have "\<exists>e\<in>set es. occurs (fst e) t" using Cons.prems(2) False by auto
    ultimately show ?thesis using Cons.prems(1) Cons.IH[of t] by simp
  qed
qed

lemma entities_shrink: "\<forall>e\<in>set entities. length (snd e) < length (fst e)"
  by (simp add: entities_def js_def)

lemma decode_id: "\<not> holds_entity t \<Longrightarrow> decode_entities t = t"
  unfolding decode_entities_def holds_entity_def by (rule fold_decode_id) (simp add: list_ex_iff)

lemma decode_length: "length (decode_entities t) \<le> length t"
  unfolding decode_entities_def using entities_shrink by (intro fold_decode_length) (simp add: less_imp_le)

lemma decode_shorter: "holds_entity t \<Longrightarrow> length (decode_entities t) < length t"
  unfolding decode_entities_def holds_entity_def
  using entities_shrink by (intro fold_decode_shorter) (simp_all add: list_ex_iff)

lemma fallback_length: "length (regex_fallback t) \<le> length (decode_entities (removeTags t))"
proof -
  have "length (regex_fallback t) \<le> length (collapse_ws (decode_entities (removeTags t)))"
    unfolding fallback_decode by (rule length_trim)
  also have "\<dots> \<le> length (decode_entities (removeTags t))" by (rule length_collapse_ws)
  finally show ?thesis .
qed

lemma fallback_changes:
  assumes "containsHtmlTags t \<or> holds_entity t"
  shows "length (regex_fallback t) < length t"
proof (cases "containsHtmlTags t")
  case True
  have "length (regex_fallback t) \<le> length (decode_entities (removeTags t))" by (rule fallback_length)
  also have "\<dots> \<le> length (removeTags t)" by (rule decode_length)
  also have "\<dots> < length t" using True by (rule removeTags_shorter)
  finally show ?thesis .
next
  case False
  then have r: "removeTags t = t" by (rule removeTags_id)
  from False assms have "holds_entity t" by simp
  then have "length (decode_entities t) < length t" by (rule decode_shorter)
  with fallback_length[of t] show ?thesis by (simp add: r)
qed

lemma fallback_keeps:
  assumes "\<not> containsHtmlTags t" "\<not> holds_entity t" "collapse_ws t = t" "trim t = t"
  shows "regex_fallback t = t"
  using assms by (simp add: fallback_decode removeTags_id decode_id)

lemma output_normal:
  "collapse_ws (stripHtmlTags textContent s) = stripHtmlTags textContent s \<and>
   trim (stripHtmlTags textContent s) = stripHtmlTags textContent s \<and>
   blank_lines (stripHtmlTags textContent s) = stripHtmlTags textContent s"
proof -
  have a: "collapse_ws (trim (collapse_ws t)) = trim (collapse_ws t) \<and>
           trim (trim (collapse_ws t)) = trim (collapse_ws t) \<and>
           blank_lines (trim (collapse_ws t)) = trim (collapse_ws t)" for t
    by (simp add: collapse_ws_spaced blank_lines_spaced spaced_trim spaced_collapse_ws trim_trim)
  have b: "trim [] = []" by (simp add: trim_def)
  show ?thesis
    using a b by (auto simp: stripHtmlTags_def dom_normalised fallback_decode split: option.splits)
qed

text \<open>
  C8 (as amended). Let \<open>out\<close> be the output of \<open>stripHtmlTags\<close> on any text, by either path.
  When the second call takes the DOM path and the browser extracts \<open>out\<close> itself from
  \<open>out\<close> (as it does from a text without markup), the second call returns \<open>out\<close>. When
  the second call takes the regex fallback, it returns \<open>out\<close> exactly when \<open>out\<close> holds no
  tag and none of the six entity references of the decode table.
\<close>

theorem stripHtmlTags_second_pass:
  "(textContent (stripHtmlTags textContent s) = Some (stripHtmlTags textContent s) \<longrightarrow>
      stripHtmlTags textContent (stripHtmlTags textContent s) = stripHtmlTags textContent s) \<and>
   (textContent (stripHtmlTags textContent s) = None \<longrightarrow>
      (stripHtmlTags textContent (stripHtmlTags textContent s) = stripHtmlTags textContent s) =
      (\<not> containsHtmlTags (stripHtmlTags textContent s) \<and> \<not> holds_entity (stripHtmlTags textContent s)))"
proof -
  define out where "out = stripHtmlTags textContent s"
  have n: "collapse_ws out = out" "trim out = out" "blank_lines out = out"
    unfolding out_def using output_normal[of textContent s] by simp_all
  have e: "containsHtmlTags [] = False" "holds_entity [] = False"
    by (simp_all add: holds_entity_def entities_def js_def)
  have a: "stripHtmlTags textContent out = out" if "textContent out = Some out"
    using that n by (simp add: stripHtmlTags_def)
  have b: "(stripHtmlTags textContent out = out) = (\<not> containsHtmlTags out \<and> \<not> holds_entity out)"
    if "textContent out = None"
  proof (cases "out = []")
    case True
    then show ?thesis using e by (simp add: stripHtmlTags_def)
  next
    case False
    with that have r: "stripHtmlTags textContent out = regex_fallback out"
      by (simp add: stripHtmlTags_def)
    show ?thesis
    proof (cases "containsHtmlTags out \<or> holds_entity out")
      case True
      then have "length (regex_fallback out) < length out" by (rule fallback_changes)
      then have "regex_fallback out \<noteq> out" by auto
      with True show ?thesis by (simp add: r)
    next
      case False
      then have "regex_fallback out = out" using n by (intro fallback_keeps) simp_all
      with False show ?thesis by (simp add: r)
    qed
  qed
  from a b show ?thesis unfolding out_def by blast
qed

text \<open>
  C8 (as stated) fails on the fallback path: each pass decodes one level of entity
  references, so \<open>&amp;amp;\<close> becomes \<open>&amp;\<close> and a second pass makes it \<open>&\<close>.
\<close>

theorem stripHtmlTags_not_idempotent:
  "stripHtmlTags no_dom (js ''&amp;amp;'') = js ''&amp;'' \<and>
   stripHtmlTags no_dom (stripHtmlTags no_dom (js ''&amp;amp;'')) = js ''&'' \<and>
   stripHtmlTags no_dom (stripHtmlTags no_dom (js ''&amp;amp;'')) \<noteq>
     stripHtmlTags no_dom (js ''&amp;amp;'')"
  by (simp add: stripHtmlTags_def no_dom_def regex_fallback_def trim_def is_space_def chars)

text \<open>
  The amended statement on the repository's entity test, whose output holds a bare \<open>&\<close>
  and quotes but no entity reference, and on the DOM path for a text with a double space.
\<close>

theorem stripHtmlTags_second_pass_witness:
  "stripHtmlTags no_dom price_test = price_text \<and> no_dom price_text = None \<and>
   \<not> containsHtmlTags price_text \<and> \<not> holds_entity price_text \<and>
   stripHtmlTags no_dom (stripHtmlTags no_dom price_test) = stripHtmlTags no_dom price_test \<and>
   stripHtmlTags echo_dom (js ''Hi  there'') = js ''Hi there'' \<and>
   echo_dom (js ''Hi there'') = Some (js ''Hi there'') \<and>
   stripHtmlTags echo_dom (stripHtmlTags echo_dom (js ''Hi  there'')) =
     stripHtmlTags echo_dom (js ''Hi  there'')"
proof -
  have n: "no_dom price_text = None" by (simp add: no_dom_def)
  have c: "\<not> containsHtmlTags price_text" by (simp add: price_text_def chars)
  have h: "\<not> holds_entity price_text"
    by (simp add: holds_entity_def entities_def price_text_def chars)
  have a: "stripHtmlTags no_dom (stripHtmlTags no_dom price_test) = stripHtmlTags no_dom price_test"
    using stripHtmlTags_second_pass[of no_dom price_test] n c h by (simp add: price_test_value)
  have v: "stripHtmlTags echo_dom (js ''Hi  there'') = js ''Hi there''"
    by (simp add: stripHtmlTags_def echo_dom_def trim_def is_space_def chars)
  have e: "echo_dom (js ''Hi there'') = Some (js ''Hi there'')" by (simp add: echo_dom_def)
  have b: "stripHtmlTags echo_dom (stripHtmlTags echo_dom (js ''Hi  there'')) =
           stripHtmlTags echo_dom (js ''Hi  there'')"
    using stripHtmlTags_second_pass[of echo_dom "js ''Hi  there''"] e by (simp add: v)
  from price_test_value n c h a v e b show ?thesis by (intro conjI)
qed

section \<open>Properties of the course sanitizer\<close>

lemma keeps_refl: "n \<le> length h \<Longrightarrow> keeps n h h"
  by (simp add: keeps_def)

lemma keeps_trans: "keeps n h h1 \<Longrightarrow> keeps n h1 h2 \<Longrightarrow> keeps n h h2"
  by (simp add: keeps_def)

lemma keeps_weaken: "keeps n h h' \<Longrightarrow> m \<le> n \<Longrightarrow> keeps m h h'"
  unfolding keeps_def by (metis le_trans min.absorb2 take_take min.commute)

lemma keeps_append: "n \<le> length h \<Longrightarrow> keeps n h (h @ xs)"
  by (simp add: keeps_def)

lemma reads_transfer:
  "reads S h v j \<Longrightarrow> S \<subseteq> T \<Longrightarrow>
   (\<forall>a\<in>S. a < length h \<longrightarrow> a < length h' \<and> h' ! a = h ! a) \<Longrightarrow> reads T h' v j"
proof (induction S h v j rule: reads.induct)
  case (5 S h a items)
  from "5.prems"(1) have a: "a \<in> S" "a < length h" by simp_all
  with "5.prems"(2,3) have a': "a \<in> T" "a < length h'" "h' ! a = h ! a" by auto
  from "5.prems"(1) obtain vs where vs: "h ! a = Array vs" "list_all2 (reads S h) vs items"
    by (auto split: obj.splits)
  have "list_all2 (reads T h') vs items"
  proof (rule list.rel_mono_strong[OF vs(2)])
    fix x y assume "x \<in> set vs" "y \<in> set items" "reads S h x y"
    then show "reads T h' x y" using "5.IH"[OF vs(1)] "5.prems"(2,3) by blast
  qed
  with a' vs(1) show ?case by simp
next
  case (6 S h a jfs)
  from "6.prems"(1) have a: "a \<in> S" "a < length h" by simp_all
  with "6.prems"(2,3) have a': "a \<in> T" "a < length h'" "h' ! a = h ! a" by auto
  from "6.prems"(1) obtain fs where fs: "h ! a = Object fs" "map fst fs = map fst jfs"
      "list_all2 (reads S h) (map snd fs) (map snd jfs)"
    by (auto split: obj.splits)
  have "list_all2 (reads T h') (map snd fs) (map snd jfs)"
  proof (rule list.rel_mono_strong[OF fs(3)])
    fix x y assume "x \<in> set (map snd fs)" "y \<in> set (map snd jfs)" "reads S h x y"
    then show "reads T h' x y" using "6.IH"[OF fs(1)] "6.prems"(2,3) by blast
  qed
  with a' fs(1,2) show ?case by simp
qed simp_all

lemma keeps_nth: "keeps n h h' \<Longrightarrow> a < n \<Longrightarrow> h' ! a = h ! a \<and> a < length h'"
  unfolding keeps_def by (metis le_trans less_le_trans nth_take)

lemma reads_keeps:
  assumes "reads S h v j" "keeps n h h'" "S \<subseteq> {..<n}" "S \<subseteq> T"
  shows "reads T h' v j"
  using assms(1,4)
proof (rule reads_transfer)
  show "\<forall>a\<in>S. a < length h \<longrightarrow> a < length h' \<and> h' ! a = h ! a"
    using keeps_nth[OF assms(2)] assms(3) by auto
qed

lemma build_fold:
  assumes P: "\<And>j h v h1. j \<in> set items \<Longrightarrow> build j h = (v, h1) \<Longrightarrow>
                keeps (length h) h h1 \<and> reads {length h..<length h1} h1 v j"
  shows "fold (\<lambda>j (vs, h'). case build j h' of (v, h'') \<Rightarrow> (vs @ [v], h'')) items (vs0, h0) = (vs, h1)
         \<Longrightarrow> keeps (length h0) h0 h1 \<and>
             (\<exists>new. vs = vs0 @ new \<and> list_all2 (reads {length h0..<length h1} h1) new items)"
  using P
proof (induction items arbitrary: vs0 h0)
  case Nil
  then show ?case by (simp add: keeps_refl)
next
  case (Cons j items)
  obtain v h0' where b: "build j h0 = (v, h0')" by (cases "build j h0")
  have pj: "keeps (length h0) h0 h0'" "reads {length h0..<length h0'} h0' v j"
    using Cons.prems(2)[OF _ b] by simp_all
  from Cons.prems(1) b have f: "fold (\<lambda>j (vs, h'). case build j h' of (v, h'') \<Rightarrow> (vs @ [v], h''))
       items (vs0 @ [v], h0') = (vs, h1)" by simp
  have ih: "keeps (length h0') h0' h1 \<and>
      (\<exists>new. vs = (vs0 @ [v]) @ new \<and> list_all2 (reads {length h0'..<length h1} h1) new items)"
  proof (rule Cons.IH[OF f])
    fix ja h v h1 assume "ja \<in> set items" "build ja h = (v, h1)"
    then show "keeps (length h) h h1 \<and> reads {length h..<length h1} h1 v ja"
      using Cons.prems(2)[of ja h v h1] by simp
  qed
  then obtain new where new: "vs = (vs0 @ [v]) @ new"
      "list_all2 (reads {length h0'..<length h1} h1) new items" by blast
  have l: "length h0 \<le> length h0'" "length h0' \<le> length h1"
    using pj(1) ih by (simp_all add: keeps_def)
  have k: "keeps (length h0) h0 h1"
    using pj(1) ih l by (meson keeps_trans keeps_weaken)
  have rv: "reads {length h0..<length h1} h1 v j"
    using pj(2) conjunct1[OF ih] by (rule reads_keeps) (use l in auto)
  have "list_all2 (reads {length h0..<length h1} h1) new items"
    using new(2)
  proof (rule list.rel_mono_strong)
    fix x y assume "reads {length h0'..<length h1} h1 x y"
    then show "reads {length h0..<length h1} h1 x y"
      by (rule reads_transfer) (use l in auto)
  qed
  with rv have "list_all2 (reads {length h0..<length h1} h1) (v # new) (j # items)" by simp
  with new(1) k show ?case by auto
qed

lemma build_reads:
  "build j h = (v, h1) \<Longrightarrow> keeps (length h) h h1 \<and> reads {length h..<length h1} h1 v j"
proof (induction j arbitrary: h v h1)
  case (JArr items)
  obtain vs h' where f: "fold (\<lambda>j (vs, h'). case build j h' of (v, h'') \<Rightarrow> (vs @ [v], h''))
      items ([], h) = (vs, h')"
    by (cases "fold (\<lambda>j (vs, h'). case build j h' of (v, h'') \<Rightarrow> (vs @ [v], h'')) items ([], h)")
  have r: "keeps (length h) h h' \<and>
      (\<exists>new. vs = [] @ new \<and> list_all2 (reads {length h..<length h'} h') new items)"
    using JArr.IH f by (intro build_fold) auto
  from JArr.prems f have v: "v = Ref (length h')" "h1 = h' @ [Array vs]" by simp_all
  have k: "keeps (length h) h h1" using r v(2) by (simp add: keeps_def)
  have "list_all2 (reads {length h..<length h1} h1) vs items"
  proof (rule list.rel_mono_strong)
    show "list_all2 (reads {length h..<length h'} h') vs items" using r by simp
    fix x y assume "reads {length h..<length h'} h' x y"
    then show "reads {length h..<length h1} h1 x y"
      by (rule reads_transfer) (auto simp: v(2) nth_append)
  qed
  moreover have "length h \<le> length h'" using r by (simp add: keeps_def)
  ultimately have "reads {length h..<length h1} h1 v (JArr items)" by (simp add: v)
  with k show ?case by simp
next
  case (JObj fs)
  obtain vs h' where f: "fold (\<lambda>j (vs, h'). case build j h' of (v, h'') \<Rightarrow> (vs @ [v], h''))
      (map snd fs) ([], h) = (vs, h')"
    by (cases "fold (\<lambda>j (vs, h'). case build j h' of (v, h'') \<Rightarrow> (vs @ [v], h'')) (map snd fs) ([], h)")
  have r: "keeps (length h) h h' \<and>
      (\<exists>new. vs = [] @ new \<and> list_all2 (reads {length h..<length h'} h') new (map snd fs))"
  proof (rule build_fold[OF _ f])
    fix j h v h1 assume "j \<in> set (map snd fs)" "build j h = (v, h1)"
    then show "keeps (length h) h h1 \<and> reads {length h..<length h1} h1 v j"
      using JObj.IH by (auto simp: snds.simps)
  qed
  from JObj.prems f have v: "v = Ref (length h')" "h1 = h' @ [Object (zip (map fst fs) vs)]" by simp_all
  have k: "keeps (length h) h h1" using r v(2) by (simp add: keeps_def)
  have l: "length vs = length fs" using r by (auto dest: list_all2_lengthD)
  have "list_all2 (reads {length h..<length h1} h1) vs (map snd fs)"
  proof (rule list.rel_mono_strong)
    show "list_all2 (reads {length h..<length h'} h') vs (map snd fs)" using r by simp
    fix x y assume "reads {length h..<length h'} h' x y"
    then show "reads {length h..<length h1} h1 x y"
      by (rule reads_transfer) (auto simp: v(2) nth_append)
  qed
  moreover have "length h \<le> length h'" using r by (simp add: keeps_def)
  ultimately have "reads {length h..<length h1} h1 v (JObj fs)" using l by (simp add: v)
  with k show ?case by simp
qed (simp_all add: keeps_refl)

lemma reads_truthy: "reads S h v j \<Longrightarrow> truthy_val v = truthy j"
  by (cases v; cases j) auto

lemma reads_strip: "reads S h v j \<Longrightarrow> stripHtmlTags_val tc v = strip_json tc j"
  by (cases v; cases j) (auto simp: stripHtmlTags_val_def strip_json_def)

lemma fields_read_Nil [simp]: "fields_read S h [] jfs = (jfs = [])" "fields_read S h fs [] = (fs = [])"
  by (auto simp: fields_read_def)

lemma fields_read_Cons2 [simp]:
  "fields_read S h ((k, v) # fs) ((k', jv) # jfs) =
     (k = k' \<and> reads S h v jv \<and> fields_read S h fs jfs)"
  by (auto simp: fields_read_def)

lemma fields_read_ConsE:
  assumes "fields_read S h ((k, v) # fs) jfs"
  obtains jv jfs' where "jfs = (k, jv) # jfs'" "reads S h v jv" "fields_read S h fs jfs'"
proof (cases jfs)
  case Nil
  with assms show ?thesis by simp
next
  case (Cons jf jfs')
  obtain k' jv where "jf = (k', jv)" by (cases jf)
  with assms Cons that show ?thesis by simp
qed

lemma fields_map_of:
  "fields_read S h fs jfs \<Longrightarrow>
     (case map_of fs k of
        None \<Rightarrow> map_of jfs k = None
      | Some v \<Rightarrow> (\<exists>jv. map_of jfs k = Some jv \<and> reads S h v jv))"
proof (induction fs arbitrary: jfs)
  case Nil
  then show ?case by simp
next
  case (Cons f fs)
  obtain k' v where f: "f = (k', v)" by (cases f)
  from Cons.prems obtain jv jfs' where j: "jfs = (k', jv) # jfs'" "reads S h v jv" "fields_read S h fs jfs'"
    unfolding f by (rule fields_read_ConsE)
  from Cons.IH[OF j(3)] j(2) show ?case
    unfolding j(1) f by (cases "k = k'") (auto split: option.splits)
qed

lemma fields_assign:
  "fields_read S h fs jfs \<Longrightarrow> reads S h v jv \<Longrightarrow> fields_read S h (assign fs k v) (assign jfs k jv)"
proof (induction fs arbitrary: jfs)
  case Nil
  then show ?case by (simp add: fields_read_def)
next
  case (Cons f fs)
  obtain k' v' where f: "f = (k', v')" by (cases f)
  from Cons.prems(1) obtain jv' jfs' where j: "jfs = (k', jv') # jfs'" "reads S h v' jv'" "fields_read S h fs jfs'"
    unfolding f by (rule fields_read_ConsE)
  from Cons.IH[OF j(3) Cons.prems(2)] j(2,3) Cons.prems(2) show ?case
    unfolding j(1) f by simp
qed

lemma strip_cell_reads:
  assumes "fields_read S h fs jfs"
  shows "fields_read S h (strip_cell tc k fs) (strip_field tc k jfs)"
proof (cases "map_of fs k")
  case None
  with fields_map_of[OF assms, of k] assms show ?thesis
    by (simp add: strip_cell_def strip_field_def)
next
  case (Some v)
  with fields_map_of[OF assms, of k] obtain jv where jv: "map_of jfs k = Some jv" "reads S h v jv"
    by auto
  have "reads S h (Str (stripHtmlTags_val tc v)) (JStr (strip_json tc jv))"
    using reads_strip[OF jv(2)] by simp
  with assms have "fields_read S h (assign fs k (Str (stripHtmlTags_val tc v)))
      (assign jfs k (JStr (strip_json tc jv)))" by (rule fields_assign)
  with Some jv assms reads_truthy[OF jv(2)] show ?thesis
    by (simp add: strip_cell_def strip_field_def)
qed

lemma get_prop_cell [simp]: "get_prop (h0 @ [Object fs]) (length h0) k = map_of fs k"
  by (simp add: get_prop_def)

lemma set_prop_cell [simp]:
  "set_prop (h0 @ [Object fs]) (length h0) k v = h0 @ [Object (assign fs k v)]"
  by (simp add: set_prop_def)

lemma strip_prop_cell:
  "strip_prop tc k (h0 @ [Object fs]) (length h0) = h0 @ [Object (strip_cell tc k fs)]"
  by (simp add: strip_prop_def strip_cell_def split: option.splits)

lemma fields_read_zip:
  "length ks = length vs \<Longrightarrow> list_all2 (reads S h) vs items \<Longrightarrow>
   fields_read S h (zip ks vs) (zip ks items)"
  by (simp add: fields_read_def list_all2_lengthD)

lemma spread_reads:
  assumes "reads S h v j"
  shows "fields_read S h (spread h v) (spread_json j)"
proof (cases v)
  case (Ref a)
  show ?thesis
  proof (cases j)
    case (JArr items)
    with assms Ref obtain vs where "h ! a = Array vs" "list_all2 (reads S h) vs items" "a < length h"
      by (auto split: obj.splits)
    then show ?thesis
      by (simp add: Ref JArr spread_def spread_json_def own_props_def index_keys_def
            fields_read_zip list_all2_lengthD)
  next
    case (JObj jfs)
    with assms Ref show ?thesis
      by (auto simp: spread_def spread_json_def own_props_def fields_read_def split: obj.splits)
  qed (use assms Ref in simp_all)
next
  case (Str s)
  with assms have j: "j = JStr s" by simp
  have "list_all2 (reads S h) (map (\<lambda>c. Str [c]) s) (map (\<lambda>c. JStr [c]) s)"
    by (simp add: list_all2_conv_all_nth)
  then show ?thesis
    by (simp add: Str j spread_def spread_json_def index_keys_def fields_read_zip)
qed (use assms in \<open>auto simp: spread_def spread_json_def\<close>)

lemma fields_transfer:
  assumes "fields_read S h fs jfs" "S \<subseteq> T" "\<forall>a\<in>S. a < length h \<longrightarrow> a < length h' \<and> h' ! a = h ! a"
  shows "fields_read T h' fs jfs"
proof -
  have "list_all2 (reads T h') (map snd fs) (map snd jfs)"
  proof (rule list.rel_mono_strong)
    show "list_all2 (reads S h) (map snd fs) (map snd jfs)" using assms(1) by (simp add: fields_read_def)
    fix x y assume "reads S h x y"
    then show "reads T h' x y" using assms(2,3) by (rule reads_transfer)
  qed
  with assms(1) show ?thesis by (simp add: fields_read_def)
qed

lemma cell_reads:
  assumes "fields_read S h0 fs jfs" "S \<subseteq> {..<length h0}"
  shows "reads (insert (length h0) S) (h0 @ [Object fs]) (Ref (length h0)) (JObj jfs)"
proof -
  have "fields_read (insert (length h0) S) (h0 @ [Object fs]) fs jfs"
    using assms(1) by (rule fields_transfer) (use assms(2) in \<open>auto simp: nth_append\<close>)
  then show ?thesis by (simp add: fields_read_def)
qed

lemma sanitize_lesson_eq:
  "sanitize_lesson tc h v =
     (Ref (length h), h @ [Object (strip_cell tc ''description'' (strip_cell tc ''content'' (spread h v)))])"
  by (simp add: sanitize_lesson_def alloc_def strip_prop_cell)

lemma lesson_refines:
  assumes "reads S h v j" "S \<subseteq> {..<length h}" "sanitize_lesson tc h v = (r, h')"
  shows "keeps (length h) h h' \<and> reads (S \<union> {length h..<length h'}) h' r (sanitize_lesson_json tc j)"
proof -
  let ?fs = "strip_cell tc ''description'' (strip_cell tc ''content'' (spread h v))"
  from assms(3) have r: "r = Ref (length h)" "h' = h @ [Object ?fs]"
    by (simp_all add: sanitize_lesson_eq)
  have "fields_read S h ?fs (strip_field tc ''description'' (strip_field tc ''content'' (spread_json j)))"
    by (intro strip_cell_reads spread_reads assms(1))
  from cell_reads[OF this assms(2)]
  have c: "reads (insert (length h) S) h' r (sanitize_lesson_json tc j)"
    by (simp add: r sanitize_lesson_json_def)
  have "insert (length h) S = S \<union> {length h..<length h'}" by (auto simp: r)
  with c have "reads (S \<union> {length h..<length h'}) h' r (sanitize_lesson_json tc j)"
    by (simp only:)
  moreover have "keeps (length h) h h'" unfolding r by (rule keeps_append) simp
  ultimately show ?thesis by blast
qed

lemma refinesD:
  "refines f g \<Longrightarrow> reads S h v j \<Longrightarrow> S \<subseteq> {..<length h} \<Longrightarrow> f h v = (r, h') \<Longrightarrow>
   keeps (length h) h h' \<and> reads (S \<union> {length h..<length h'}) h' r (g j)"
  unfolding refines_def by blast

lemma lesson_refines': "refines (sanitize_lesson tc) (sanitize_lesson_json tc)"
  unfolding refines_def using lesson_refines by blast

lemma fold_refines:
  assumes f: "refines f g"
  shows "list_all2 (reads S h0) vs items \<Longrightarrow> S \<subseteq> {..<length h0} \<Longrightarrow>
         fold (\<lambda>v (rs, h'). case f h' v of (r, h'') \<Rightarrow> (rs @ [r], h'')) vs (rs0, h0) = (rs, h1) \<Longrightarrow>
         keeps (length h0) h0 h1 \<and>
         (\<exists>new. rs = rs0 @ new \<and> list_all2 (reads (S \<union> {length h0..<length h1}) h1) new (map g items))"
proof (induction vs arbitrary: items rs0 h0)
  case Nil
  then show ?case by (simp add: keeps_refl)
next
  case (Cons v vs)
  from Cons.prems(1) obtain j items' where it: "items = j # items'" "reads S h0 v j"
      "list_all2 (reads S h0) vs items'"
    by (auto simp: list_all2_Cons1)
  obtain r h0' where fv: "f h0 v = (r, h0')" by (cases "f h0 v")
  from refinesD[OF f it(2) Cons.prems(2) fv]
  have k0: "keeps (length h0) h0 h0'" and r0: "reads (S \<union> {length h0..<length h0'}) h0' r (g j)"
    by simp_all
  have l0: "length h0 \<le> length h0'" using k0 by (simp add: keeps_def)
  have rest: "list_all2 (reads S h0') vs items'"
  proof (rule list.rel_mono_strong[OF it(3)])
    fix x y assume "reads S h0 x y"
    then show "reads S h0' x y" using k0 Cons.prems(2) by (rule reads_keeps) simp
  qed
  have S': "S \<subseteq> {..<length h0'}" using Cons.prems(2) l0 by auto
  from Cons.prems(3) fv have fo: "fold (\<lambda>v (rs, h'). case f h' v of (r, h'') \<Rightarrow> (rs @ [r], h''))
      vs (rs0 @ [r], h0') = (rs, h1)" by simp
  from Cons.IH[OF rest S' fo] obtain new where
    k1: "keeps (length h0') h0' h1" and new: "rs = (rs0 @ [r]) @ new"
      "list_all2 (reads (S \<union> {length h0'..<length h1}) h1) new (map g items')"
    by blast
  have l1: "length h0' \<le> length h1" using k1 by (simp add: keeps_def)
  have k: "keeps (length h0) h0 h1" using k0 k1 l0 by (meson keeps_trans keeps_weaken)
  have r1: "reads (S \<union> {length h0..<length h1}) h1 r (g j)"
    using r0 k1 by (rule reads_keeps) (use S' l0 l1 in auto)
  have "list_all2 (reads (S \<union> {length h0..<length h1}) h1) new (map g items')"
  proof (rule list.rel_mono_strong[OF new(2)])
    fix x y assume "reads (S \<union> {length h0'..<length h1}) h1 x y"
    then show "reads (S \<union> {length h0..<length h1}) h1 x y"
      by (rule reads_transfer) (use l0 in auto)
  qed
  with r1 have "list_all2 (reads (S \<union> {length h0..<length h1}) h1) (r # new) (map g items)"
    by (simp add: it(1))
  with new(1) k show ?case by auto
qed

lemma array_map_refines:
  assumes f: "refines f g" and vs: "list_all2 (reads S h0) vs items" and S: "S \<subseteq> {..<length h0}"
    and m: "array_map f h0 vs = (arr, h')"
  shows "keeps (length h0) h0 h' \<and> reads (S \<union> {length h0..<length h'}) h' arr (JArr (map g items))"
proof -
  obtain rs h1 where fo: "fold (\<lambda>v (rs, h'). case f h' v of (r, h'') \<Rightarrow> (rs @ [r], h'')) vs ([], h0) = (rs, h1)"
    by (cases "fold (\<lambda>v (rs, h'). case f h' v of (r, h'') \<Rightarrow> (rs @ [r], h'')) vs ([], h0)")
  from fold_refines[OF f vs S fo]
  have k1: "keeps (length h0) h0 h1"
    and rs: "list_all2 (reads (S \<union> {length h0..<length h1}) h1) rs (map g items)" by auto
  from m fo have a: "arr = Ref (length h1)" "h' = h1 @ [Array rs]" by (simp_all add: array_map_def)
  have l: "length h0 \<le> length h1" using k1 by (simp add: keeps_def)
  have k: "keeps (length h0) h0 h'" using k1 by (simp add: a keeps_def)
  have "list_all2 (reads (S \<union> {length h0..<length h'}) h') rs (map g items)"
  proof (rule list.rel_mono_strong[OF rs])
    fix x y assume "reads (S \<union> {length h0..<length h1}) h1 x y"
    then show "reads (S \<union> {length h0..<length h'}) h' x y"
      by (rule reads_transfer) (use S l in \<open>auto simp: a nth_append\<close>)
  qed
  then have "reads (S \<union> {length h0..<length h'}) h' arr (JArr (map g items))"
    using l by (simp add: a)
  with k show ?thesis by simp
qed

lemma elements_reads:
  assumes "reads S h xs jx" "S \<subseteq> {..<length h}" "keeps (length h) h hb"
  shows "case elements hb xs of
           None \<Rightarrow> (\<forall>items. jx \<noteq> JArr items)
         | Some vs \<Rightarrow> (\<exists>items. jx = JArr items \<and> list_all2 (reads S h) vs items)"
proof (cases xs)
  case (Ref b)
  show ?thesis
  proof (cases jx)
    case (JArr items)
    with assms(1) Ref obtain vs where b: "b \<in> S" "b < length h" "h ! b = Array vs"
        "list_all2 (reads S h) vs items" by (auto split: obj.splits)
    from keeps_nth[OF assms(3) b(2)] b(3) have "hb ! b = Array vs" "b < length hb" by simp_all
    with b(4) show ?thesis by (simp add: Ref JArr elements_def)
  next
    case (JObj jfs)
    with assms(1) Ref obtain fs where b: "b \<in> S" "b < length h" "h ! b = Object fs"
      by (auto split: obj.splits)
    from keeps_nth[OF assms(3) b(2)] b(3) have "hb ! b = Object fs" "b < length hb" by simp_all
    then show ?thesis by (simp add: Ref JObj elements_def)
  qed (use assms(1) Ref in simp_all)
qed (use assms(1) in \<open>auto simp: elements_def\<close>)

lemma map_prop_cell:
  assumes f: "refines f g" and fs: "fields_read S h0 fs jfs" and S: "S \<subseteq> {..<length h0}"
  shows "keeps (length h0) h0 (map_prop f k (h0 @ [Object fs]) (length h0)) \<and>
         reads (S \<union> {length h0..<length (map_prop f k (h0 @ [Object fs]) (length h0))})
           (map_prop f k (h0 @ [Object fs]) (length h0)) (Ref (length h0)) (JObj (map_field g k jfs))"
proof -
  let ?a = "length h0"
  let ?hb = "h0 @ [Object fs]"
  have kb: "keeps ?a h0 ?hb" by (rule keeps_append) simp
  have same: "keeps ?a h0 ?hb \<and> reads (S \<union> {?a..<length ?hb}) ?hb (Ref ?a) (JObj jfs)"
  proof -
    have "insert ?a S = S \<union> {?a..<length ?hb}" by auto
    with cell_reads[OF fs S] have "reads (S \<union> {?a..<length ?hb}) ?hb (Ref ?a) (JObj jfs)"
      by (simp only:)
    with kb show ?thesis by simp
  qed
  show ?thesis
  proof (cases "map_of fs k")
    case None
    with fields_map_of[OF fs, of k] have "map_of jfs k = None" by simp
    with None same show ?thesis by (simp add: map_prop_def map_field_def)
  next
    case (Some xs)
    with fields_map_of[OF fs, of k] obtain jx where jx: "map_of jfs k = Some jx" "reads S h0 xs jx"
      by auto
    note el = elements_reads[OF jx(2) S kb]
    show ?thesis
    proof (cases "elements ?hb xs")
      case None
      with el have "\<forall>items. jx \<noteq> JArr items" by simp
      then have "map_field g k jfs = jfs" using jx(1) by (cases jx) (simp_all add: map_field_def)
      with None Some same show ?thesis by (simp add: map_prop_def)
    next
      case (Some vs)
      with el obtain items where it: "jx = JArr items" "list_all2 (reads S h0) vs items" by auto
      obtain arr h3 where am: "array_map f ?hb vs = (arr, h3)" by (cases "array_map f ?hb vs")
      have vsb: "list_all2 (reads S ?hb) vs items"
      proof (rule list.rel_mono_strong[OF it(2)])
        fix x y assume "reads S h0 x y"
        then show "reads S ?hb x y" using kb S by (rule reads_keeps) simp
      qed
      have Sb: "S \<subseteq> {..<length ?hb}" using S by auto
      from array_map_refines[OF f vsb Sb am]
      have k3: "keeps (length ?hb) ?hb h3"
        and r3: "reads (S \<union> {length ?hb..<length h3}) h3 arr (JArr (map g items))" by simp_all
      have l3: "length ?hb \<le> length h3" using k3 by (simp add: keeps_def)
      have a3: "h3 ! ?a = Object fs" "?a < length h3"
        using keeps_nth[OF k3, of ?a] by simp_all
      let ?h' = "h3[?a := Object (assign fs k arr)]"
      have res: "map_prop f k ?hb ?a = ?h'"
        using \<open>map_of fs k = Some xs\<close> Some am a3 by (simp add: map_prop_def set_prop_def)
      have mf: "map_field g k jfs = assign jfs k (JArr (map g items))"
        using jx(1) it(1) by (simp add: map_field_def)
      let ?T = "S \<union> {?a..<length ?h'}"
      have "keeps ?a ?hb h3" using k3 by (rule keeps_weaken) simp
      with kb have k3': "keeps ?a h0 h3" by (rule keeps_trans)
      have k: "keeps ?a h0 ?h'"
        using k3' by (simp add: keeps_def)
      have f1: "fields_read ?T ?h' fs jfs"
      proof (rule fields_transfer[OF fs])
        show "S \<subseteq> ?T" by blast
        show "\<forall>b\<in>S. b < length h0 \<longrightarrow> b < length ?h' \<and> ?h' ! b = h0 ! b"
        proof (intro ballI impI)
          fix b assume "b \<in> S" "b < length h0"
          then show "b < length ?h' \<and> ?h' ! b = h0 ! b"
            using keeps_nth[OF k, of b] by simp
        qed
      qed
      have r1: "reads ?T ?h' arr (JArr (map g items))"
      proof (rule reads_transfer[OF r3])
        show "S \<union> {length ?hb..<length h3} \<subseteq> ?T" by auto
        show "\<forall>b\<in>S \<union> {length ?hb..<length h3}. b < length h3 \<longrightarrow> b < length ?h' \<and> ?h' ! b = h3 ! b"
        proof (intro ballI impI)
          fix b assume b: "b \<in> S \<union> {length ?hb..<length h3}" "b < length h3"
          then have "b \<noteq> ?a" using S by auto
          with b(2) show "b < length ?h' \<and> ?h' ! b = h3 ! b" by simp
        qed
      qed
      have "fields_read ?T ?h' (assign fs k arr) (assign jfs k (JArr (map g items)))"
        using f1 r1 by (rule fields_assign)
      moreover have "?a \<in> ?T" using a3(2) by simp
      moreover have "?h' ! ?a = Object (assign fs k arr)" "?a < length ?h'" using a3(2) by simp_all
      ultimately have "reads ?T ?h' (Ref ?a) (JObj (assign jfs k (JArr (map g items))))"
        unfolding fields_read_def reads.simps by simp
      then have "reads ?T ?h' (Ref ?a) (JObj (map_field g k jfs))"
        by (simp only: mf)
      with k show ?thesis by (simp only: res) 
    qed
  qed
qed

lemma sanitize_section_eq:
  "sanitize_section tc h v =
     (Ref (length h),
      map_prop (sanitize_lesson tc) ''lessons''
        (h @ [Object (strip_cell tc ''description'' (spread h v))]) (length h))"
  by (simp add: sanitize_section_def alloc_def strip_prop_cell)

lemma section_refines: "refines (sanitize_section tc) (sanitize_section_json tc)"
  unfolding refines_def
proof (intro allI impI)
  fix S h v j r h'
  assume rd: "reads S h v j" and S: "S \<subseteq> {..<length h}" and e: "sanitize_section tc h v = (r, h')"
  have fs: "fields_read S h (strip_cell tc ''description'' (spread h v))
              (strip_field tc ''description'' (spread_json j))"
    by (intro strip_cell_reads spread_reads rd)
  from e have r: "r = Ref (length h)"
      "h' = map_prop (sanitize_lesson tc) ''lessons''
              (h @ [Object (strip_cell tc ''description'' (spread h v))]) (length h)"
    by (simp_all add: sanitize_section_eq)
  from map_prop_cell[OF lesson_refines' fs S, of tc "''lessons''"]
  show "keeps (length h) h h' \<and> reads (S \<union> {length h..<length h'}) h' r (sanitize_section_json tc j)"
    unfolding r sanitize_section_json_def by simp
qed

lemma build_object:
  assumes "build (JObj fs0) h = (v, h1)"
  shows "\<exists>h0 ofs. v = Ref (length h0) \<and> h1 = h0 @ [Object ofs] \<and> keeps (length h) h h0 \<and>
           fields_read {length h..<length h0} h0 ofs fs0"
proof -
  obtain vs h0 where f: "fold (\<lambda>j (vs, h'). case build j h' of (v, h'') \<Rightarrow> (vs @ [v], h''))
      (map snd fs0) ([], h) = (vs, h0)"
    by (cases "fold (\<lambda>j (vs, h'). case build j h' of (v, h'') \<Rightarrow> (vs @ [v], h'')) (map snd fs0) ([], h)")
  have r: "keeps (length h) h h0 \<and>
      (\<exists>new. vs = [] @ new \<and> list_all2 (reads {length h..<length h0} h0) new (map snd fs0))"
    by (rule build_fold[OF _ f]) (rule build_reads)
  then have l: "length vs = length fs0" by (auto dest: list_all2_lengthD)
  from assms f have v: "v = Ref (length h0)" "h1 = h0 @ [Object (zip (map fst fs0) vs)]" by simp_all
  have "fields_read {length h..<length h0} h0 (zip (map fst fs0) vs) fs0"
    using r l by (simp add: fields_read_def)
  with v r show ?thesis by blast
qed

lemma course_object_refines:
  assumes b: "build (JObj fs0) h = (v, h1)"
    and e: "sanitizeCourseForStorage tc h (Ref c) = (r, h')"
    and j: "JSON_stringify h (Ref c) = Some (JObj fs0)"
  shows "keeps (length h) h h' \<and> reads {length h..<length h'} h' r (sanitize_course_json tc (JObj fs0))"
proof -
  from build_object[OF b] obtain h0 ofs where
    v: "v = Ref (length h0)" "h1 = h0 @ [Object ofs]" and k0: "keeps (length h) h h0"
    and fs: "fields_read {length h..<length h0} h0 ofs fs0" by blast
  let ?S = "{length h..<length h0}"
  let ?h' = "map_prop (sanitize_section tc) ''sections''
               (h0 @ [Object (strip_cell tc ''description'' ofs)]) (length h0)"
  from e j b have r: "r = Ref (length h0)" "h' = ?h'"
    by (simp_all add: sanitizeCourseForStorage_def v strip_prop_cell)
  have fs': "fields_read ?S h0 (strip_cell tc ''description'' ofs) (strip_field tc ''description'' fs0)"
    using fs by (rule strip_cell_reads)
  have S: "?S \<subseteq> {..<length h0}" by auto
  from map_prop_cell[OF section_refines fs' S, of tc "''sections''"]
  have k1: "keeps (length h0) h0 ?h'"
    and r1: "reads (?S \<union> {length h0..<length ?h'}) ?h' (Ref (length h0))
               (sanitize_course_json tc (JObj fs0))"
    by (simp_all add: sanitize_course_json_def)
  have l: "length h \<le> length h0" "length h0 \<le> length ?h'"
    using k0 k1 by (simp_all add: keeps_def)
  have k: "keeps (length h) h ?h'" using k0 k1 l by (meson keeps_trans keeps_weaken)
  have "?S \<union> {length h0..<length ?h'} = {length h..<length ?h'}" using l by auto
  with r1 have "reads {length h..<length ?h'} ?h' (Ref (length h0)) (sanitize_course_json tc (JObj fs0))"
    by (simp only:)
  with k show ?thesis by (simp only: r)
qed

lemma index_key_digits: "set (index_key n) \<subseteq> set ''0123456789''"
proof (induction n rule: index_key.induct)
  case (1 n)
  have d: "''0123456789'' ! m \<in> set ''0123456789''" if "m < 10" for m
    using that by (intro nth_mem) simp
  show ?case
  proof (cases "n < 10")
    case True
    then show ?thesis using d[of n] by (subst index_key.simps) simp
  next
    case False
    have "n mod 10 < 10" by simp
    from d[OF this] 1 False show ?thesis by (subst index_key.simps) simp
  qed
qed

lemma not_an_index:
  assumes "c \<in> set k" "c \<notin> set ''0123456789''"
  shows "map_of (zip (index_keys n) vs) k = None"
proof -
  have "k \<notin> set (index_keys n)"
    using assms index_key_digits by (auto simp: index_keys_def)
  then have "k \<notin> fst ` set (zip (index_keys n) vs)"
    by (metis (no_types, lifting) imageE in_set_zipE prod.collapse)
  then show ?thesis by (simp add: map_of_eq_None_iff)
qed

lemma array_props:
  "map_of (zip (index_keys n) vs) ''description'' = None"
  "map_of (zip (index_keys n) vs) ''sections'' = None"
  by (rule not_an_index[of "CHR ''s''"]; simp)+

lemma build_array:
  assumes "build (JArr items) h = (v, h1)"
  shows "\<exists>h0 vs. v = Ref (length h0) \<and> h1 = h0 @ [Array vs]"
proof -
  obtain vs h0 where f: "fold (\<lambda>j (vs, h'). case build j h' of (v, h'') \<Rightarrow> (vs @ [v], h''))
      items ([], h) = (vs, h0)"
    by (cases "fold (\<lambda>j (vs, h'). case build j h' of (v, h'') \<Rightarrow> (vs @ [v], h'')) items ([], h)")
  with assms have "v = Ref (length h0)" "h1 = h0 @ [Array vs]" by simp_all
  then show ?thesis by blast
qed

lemma course_array_refines:
  assumes b: "build (JArr items) h = (v, h1)"
    and e: "sanitizeCourseForStorage tc h (Ref c) = (r, h')"
    and j: "JSON_stringify h (Ref c) = Some (JArr items)"
  shows "keeps (length h) h h' \<and> reads {length h..<length h'} h' r (sanitize_course_json tc (JArr items))"
proof -
  from build_array[OF b] obtain h0 vs where v: "v = Ref (length h0)" "h1 = h0 @ [Array vs]" by blast
  have g: "get_prop h1 (length h0) ''description'' = None" "get_prop h1 (length h0) ''sections'' = None"
    by (simp_all add: get_prop_def v array_props)
  from e j b have "r = v" "h' = h1"
    by (simp_all add: sanitizeCourseForStorage_def v(1) strip_prop_def map_prop_def g)
  with build_reads[OF b] show ?thesis by (simp add: sanitize_course_json_def)
qed

lemma those_map_Some:
  "those (map f xs) = Some ys \<longleftrightarrow> list_all2 (\<lambda>x y. f x = Some y) xs ys"
proof (induction xs arbitrary: ys)
  case Nil
  show ?case by auto
next
  case (Cons x xs)
  show ?case
    by (cases ys) (auto simp: Cons.IH split: option.splits)
qed

lemma to_json_reads:
  "to_json stack h v = Some j \<Longrightarrow> reads {..<length h} h v j"
proof (induction stack h v arbitrary: j rule: to_json.induct)
  case (5 stack h a)
  from "5.prems" have a: "a \<notin> set stack" "a < length h" by (auto split: if_splits)
  show ?case
  proof (cases "h ! a")
    case (Array vs)
    from "5.prems" a Array obtain items where it: "j = JArr items"
        "those (map (to_json (a # stack) h) vs) = Some items" by auto
    from it(2) have "list_all2 (\<lambda>x y. to_json (a # stack) h x = Some y) vs items"
      by (simp only: those_map_Some)
    then have "list_all2 (reads {..<length h} h) vs items"
    proof (rule list.rel_mono_strong)
      fix x y assume "x \<in> set vs" "to_json (a # stack) h x = Some y"
      then show "reads {..<length h} h x y" using "5.IH"(2)[OF _ Array] a by simp
    qed
    with a Array show ?thesis by (simp add: it(1))
  next
    case (Object fs)
    from "5.prems" a Object obtain jfs where it: "j = JObj jfs"
        "those (map (\<lambda>kv. map_option (Pair (fst kv)) (to_json (a # stack) h (snd kv))) fs) = Some jfs"
      by auto
    from it(2) have l: "list_all2 (\<lambda>kv jkv. map_option (Pair (fst kv)) (to_json (a # stack) h (snd kv)) = Some jkv) fs jfs"
      by (simp only: those_map_Some)
    then have "list_all2 (\<lambda>kv jkv. fst kv = fst jkv \<and> reads {..<length h} h (snd kv) (snd jkv)) fs jfs"
    proof (rule list.rel_mono_strong)
      fix kv jkv assume "kv \<in> set fs"
        "map_option (Pair (fst kv)) (to_json (a # stack) h (snd kv)) = Some jkv"
      then show "fst kv = fst jkv \<and> reads {..<length h} h (snd kv) (snd jkv)"
        using "5.IH"(1)[OF _ Object, of kv "snd jkv"] a by auto
    qed
    then have "map fst fs = map fst jfs \<and> list_all2 (reads {..<length h} h) (map snd fs) (map snd jfs)"
      by (induction rule: list_all2_induct) auto
    with a Object show ?thesis by (simp add: it(1))
  qed
qed auto

lemma list_all2_unique:
  "list_all2 P xs ys \<Longrightarrow> list_all2 Q xs zs \<Longrightarrow>
   (\<And>x y z. x \<in> set xs \<Longrightarrow> y \<in> set ys \<Longrightarrow> P x y \<Longrightarrow> Q x z \<Longrightarrow> y = z) \<Longrightarrow> ys = zs"
proof (induction arbitrary: zs rule: list_all2_induct)
  case Nil
  then show ?case by simp
next
  case (Cons x xs y ys)
  from Cons.prems(1) obtain z zs' where z: "zs = z # zs'" "Q x z" "list_all2 Q xs zs'"
    by (auto simp: list_all2_Cons1)
  have "y = z" using Cons.hyps(1) z(2) by (intro Cons.prems(2)) simp_all
  moreover have "ys = zs'" using z(3) Cons.prems(2) by (intro Cons.IH) auto
  ultimately show ?case by (simp add: z(1))
qed

lemma reads_det: "reads S h v j \<Longrightarrow> reads T h v j' \<Longrightarrow> j = j'"
proof (induction S h v j arbitrary: j' rule: reads.induct)
  case (5 S h a items)
  from "5.prems"(1) obtain vs where vs: "h ! a = Array vs" "list_all2 (reads S h) vs items"
    by (auto split: obj.splits)
  from "5.prems"(2) vs(1) obtain items' where j': "j' = JArr items'" "list_all2 (reads T h) vs items'"
    by (cases j') (auto split: obj.splits)
  have "items = items'"
    using vs(2) j'(2) "5.IH"[OF vs(1)] by (rule list_all2_unique) blast
  then show ?case by (simp add: j'(1))
next
  case (6 S h a jfs)
  from "6.prems"(1) obtain fs where fs: "h ! a = Object fs" "map fst fs = map fst jfs"
      "list_all2 (reads S h) (map snd fs) (map snd jfs)"
    by (auto split: obj.splits)
  from "6.prems"(2) fs(1) obtain jfs' where j': "j' = JObj jfs'" "map fst fs = map fst jfs'"
      "list_all2 (reads T h) (map snd fs) (map snd jfs')"
    by (cases j') (auto split: obj.splits)
  have "map snd jfs = map snd jfs'"
    using fs(3) j'(3) "6.IH"[OF fs(1)] by (rule list_all2_unique) blast
  with fs(2) j'(2) have "jfs = jfs'" by (intro pair_list_eqI) simp_all
  then show ?case by (simp add: j'(1))
qed auto

lemma jsize_member: "y \<in> set items \<Longrightarrow> jsize y < jsize (JArr items)"
  using member_le_sum_list[of "jsize y" "map jsize items"] by auto

lemma jsize_field: "y \<in> set (map snd jfs) \<Longrightarrow> jsize y < jsize (JObj jfs)"
proof -
  assume "y \<in> set (map snd jfs)"
  then have "jsize y \<in> set (map (\<lambda>kv. jsize (snd kv)) jfs)" by auto
  from member_le_sum_list[OF this] show ?thesis by simp
qed

lemma reads_to_json:
  "reads S h v j \<Longrightarrow> (\<forall>b\<in>set stack. \<forall>T j'. reads T h (Ref b) j' \<longrightarrow> jsize j < jsize j') \<Longrightarrow>
   to_json stack h v = Some j"
proof (induction S h v j arbitrary: stack rule: reads.induct)
  case (5 S h a items)
  from "5.prems"(1) obtain vs where vs: "a < length h" "h ! a = Array vs" "list_all2 (reads S h) vs items"
    by (auto split: obj.splits)
  have a: "a \<notin> set stack" using "5.prems" by (meson less_irrefl)
  have "list_all2 (\<lambda>x y. to_json (a # stack) h x = Some y) vs items"
  proof (rule list.rel_mono_strong[OF vs(3)])
    fix x y assume xy: "x \<in> set vs" "y \<in> set items" "reads S h x y"
    have "\<forall>b\<in>set (a # stack). \<forall>T j'. reads T h (Ref b) j' \<longrightarrow> jsize y < jsize j'"
    proof (intro ballI allI impI)
      fix b T j' assume b: "b \<in> set (a # stack)" "reads T h (Ref b) j'"
      show "jsize y < jsize j'"
      proof (cases "b = a")
        case True
        with b(2) "5.prems"(1) have "j' = JArr items" using reads_det by blast
        with jsize_member[OF xy(2)] show ?thesis by simp
      next
        case False
        with b "5.prems"(2) have "jsize (JArr items) < jsize j'" by auto
        with jsize_member[OF xy(2)] show ?thesis by simp
      qed
    qed
    with "5.IH"[OF vs(2) xy] show "to_json (a # stack) h x = Some y" by blast
  qed
  then have "those (map (to_json (a # stack) h) vs) = Some items" by (simp only: those_map_Some)
  with a vs show ?case by simp
next
  case (6 S h a jfs)
  from "6.prems"(1) obtain fs where fs: "a < length h" "h ! a = Object fs" "map fst fs = map fst jfs"
      "list_all2 (reads S h) (map snd fs) (map snd jfs)"
    by (auto split: obj.splits)
  have a: "a \<notin> set stack" using "6.prems" by (meson less_irrefl)
  have el: "list_all2 (\<lambda>x y. to_json (a # stack) h x = Some y) (map snd fs) (map snd jfs)"
  proof (rule list.rel_mono_strong[OF fs(4)])
    fix x y assume xy: "x \<in> set (map snd fs)" "y \<in> set (map snd jfs)" "reads S h x y"
    have "\<forall>b\<in>set (a # stack). \<forall>T j'. reads T h (Ref b) j' \<longrightarrow> jsize y < jsize j'"
    proof (intro ballI allI impI)
      fix b T j' assume b: "b \<in> set (a # stack)" "reads T h (Ref b) j'"
      show "jsize y < jsize j'"
      proof (cases "b = a")
        case True
        with b(2) "6.prems"(1) have "j' = JObj jfs" using reads_det by blast
        with jsize_field[OF xy(2)] show ?thesis by simp
      next
        case False
        with b "6.prems"(2) have "jsize (JObj jfs) < jsize j'" by auto
        with jsize_field[OF xy(2)] show ?thesis by simp
      qed
    qed
    with "6.IH"[OF fs(2) xy] show "to_json (a # stack) h x = Some y" by blast
  qed
  have "list_all2 (\<lambda>kv jkv. map_option (Pair (fst kv)) (to_json (a # stack) h (snd kv)) = Some jkv) fs jfs"
    using fs(3) el
  proof (induction fs arbitrary: jfs)
    case Nil
    then show ?case by simp
  next
    case (Cons f fs)
    then show ?case by (cases jfs) (auto simp: prod_eq_iff)
  qed
  then have "those (map (\<lambda>kv. map_option (Pair (fst kv)) (to_json (a # stack) h (snd kv))) fs) = Some jfs"
    by (simp only: those_map_Some)
  with a fs show ?case by simp
qed auto

lemma reads_stringify: "reads S h v j \<Longrightarrow> JSON_stringify h v = Some j"
  unfolding JSON_stringify_def by (rule reads_to_json) simp_all

lemma stringify_kept:
  assumes "JSON_stringify h v = Some j" "keeps (length h) h h'"
  shows "JSON_stringify h' v = Some j"
proof -
  have "reads {..<length h} h v j" using assms(1) unfolding JSON_stringify_def by (rule to_json_reads)
  then have "reads {..<length h} h' v j" using assms(2) by (rule reads_keeps) simp_all
  then show ?thesis by (rule reads_stringify)
qed

lemma same_fields_refl: "same_fields_except ks fs fs"
  by (simp add: same_fields_except_def list_all2_same)

lemma same_fields_trans:
  "same_fields_except ks fs fs' \<Longrightarrow> same_fields_except ks fs' fs'' \<Longrightarrow> same_fields_except ks fs fs''"
  unfolding same_fields_except_def
  by (erule (1) list_all2_trans[rotated]) auto

lemma same_fields_assign:
  "map_of fs k \<noteq> None \<Longrightarrow> k \<in> set ks \<Longrightarrow> same_fields_except ks fs (assign fs k v)"
proof (induction fs)
  case Nil
  then show ?case by simp
next
  case (Cons f fs)
  obtain k' v' where f: "f = (k', v')" by (cases f)
  show ?case
  proof (cases "k' = k")
    case True
    with Cons.prems(2) show ?thesis
      using same_fields_refl[of ks fs] by (simp add: f same_fields_except_def)
  next
    case False
    with Cons show ?thesis by (simp add: f same_fields_except_def)
  qed
qed

lemma same_fields_strip:
  "k \<in> set ks \<Longrightarrow> same_fields_except ks fs (strip_field tc k fs)"
  by (auto simp: strip_field_def same_fields_refl same_fields_assign split: option.splits)

lemma same_fields_map:
  "k \<in> set ks \<Longrightarrow> same_fields_except ks fs (map_field g k fs)"
  by (auto simp: map_field_def same_fields_refl same_fields_assign split: option.splits json.splits)

lemma map_of_assign: "map_of (assign fs k v) k' = (if k' = k then Some v else map_of fs k')"
  by (induction fs) auto

lemma map_of_strip_other: "k' \<noteq> k \<Longrightarrow> map_of (strip_field tc k fs) k' = map_of fs k'"
  by (simp add: strip_field_def map_of_assign split: option.splits)

lemma same_fields_lookup:
  "same_fields_except ks fs fs' \<Longrightarrow> k \<notin> set ks \<Longrightarrow> map_of fs' k = map_of fs k"
  unfolding same_fields_except_def
  by (induction rule: list_all2_induct) (auto simp: prod_eq_iff)

lemma lesson_same: "is_object l \<Longrightarrow> same_lesson l (sanitize_lesson_json tc l)"
proof (cases l)
  case (JObj fs)
  have "same_fields_except [''content'', ''description''] fs (strip_field tc ''content'' fs)"
    by (rule same_fields_strip) simp
  moreover have "same_fields_except [''content'', ''description''] (strip_field tc ''content'' fs)
      (strip_field tc ''description'' (strip_field tc ''content'' fs))"
    by (rule same_fields_strip) simp
  ultimately show ?thesis
    by (simp add: JObj same_lesson_def sanitize_lesson_json_def spread_json_def)
       (rule same_fields_trans)
qed (simp_all add: is_object_def)

lemma map_field_same:
  assumes "list_field_all P (map_of fs k)" "\<And>x. P x \<Longrightarrow> same x (g x)"
  shows "same_list_field same (map_of fs k) (map_of (map_field g k fs) k)"
proof (cases "map_of fs k")
  case None
  then show ?thesis by (simp add: map_field_def same_list_field_def)
next
  case (Some x)
  show ?thesis
  proof (cases x)
    case (JArr xs)
    with assms(1) Some have "list_all P xs" by (simp add: list_field_all_def)
    then have "list_all2 same xs (map g xs)"
      using assms(2) by (simp add: list_all2_map2 list_all2_same list_all_iff)
    with Some JArr show ?thesis by (simp add: map_field_def same_list_field_def map_of_assign)
  qed (use Some in \<open>simp_all add: map_field_def same_list_field_def\<close>)
qed

lemma section_same:
  assumes "wf_section s"
  shows "same_section s (sanitize_section_json tc s)"
proof (cases s)
  case (JObj fs)
  let ?fs1 = "strip_field tc ''description'' fs"
  let ?fs2 = "map_field (sanitize_lesson_json tc) ''lessons'' ?fs1"
  have l1: "map_of ?fs1 ''lessons'' = map_of fs ''lessons''"
    by (rule map_of_strip_other) simp
  have "same_fields_except [''description'', ''lessons''] fs ?fs1"
    by (rule same_fields_strip) simp
  moreover have "same_fields_except [''description'', ''lessons''] ?fs1 ?fs2"
    by (rule same_fields_map) simp
  ultimately have a: "same_fields_except [''description'', ''lessons''] fs ?fs2"
    by (rule same_fields_trans)
  have "list_field_all is_object (map_of ?fs1 ''lessons'')"
    using assms by (simp add: JObj wf_section_def l1)
  then have "same_list_field same_lesson (map_of ?fs1 ''lessons'') (map_of ?fs2 ''lessons'')"
    by (rule map_field_same) (rule lesson_same)
  with a show ?thesis
    by (simp add: JObj same_section_def sanitize_section_json_def spread_json_def l1)
qed (use assms in \<open>simp_all add: wf_section_def\<close>)

lemma course_same:
  assumes "wf_course c"
  shows "same_course c (sanitize_course_json tc c)"
proof (cases c)
  case (JObj fs)
  let ?fs1 = "strip_field tc ''description'' fs"
  let ?fs2 = "map_field (sanitize_section_json tc) ''sections'' ?fs1"
  have l1: "map_of ?fs1 ''sections'' = map_of fs ''sections''"
    by (rule map_of_strip_other) simp
  have "same_fields_except [''description'', ''sections''] fs ?fs1"
    by (rule same_fields_strip) simp
  moreover have "same_fields_except [''description'', ''sections''] ?fs1 ?fs2"
    by (rule same_fields_map) simp
  ultimately have a: "same_fields_except [''description'', ''sections''] fs ?fs2"
    by (rule same_fields_trans)
  have "list_field_all wf_section (map_of ?fs1 ''sections'')"
    using assms by (simp add: JObj wf_course_def l1)
  then have "same_list_field same_section (map_of ?fs1 ''sections'') (map_of ?fs2 ''sections'')"
    by (rule map_field_same) (rule section_same)
  with a show ?thesis
    by (simp add: JObj same_course_def sanitize_course_json_def l1)
qed (use assms in \<open>simp_all add: wf_course_def\<close>)

lemma sanitize_course_refines:
  assumes j: "JSON_stringify h course = Some j"
    and e: "sanitizeCourseForStorage tc h course = (r, h')"
  shows "keeps (length h) h h' \<and> reads {length h..<length h'} h' r (sanitize_course_json tc j)"
proof (cases course)
  case (Ref c)
  from j have "reads {..<length h} h (Ref c) j"
    unfolding JSON_stringify_def Ref by (rule to_json_reads)
  then consider items where "j = JArr items" | fs0 where "j = JObj fs0"
    by (cases j) auto
  then show ?thesis
  proof cases
    case 1
    obtain v h1 where "build (JArr items) h = (v, h1)" by (cases "build (JArr items) h")
    then show ?thesis using e j unfolding Ref 1 by (rule course_array_refines)
  next
    case 2
    obtain v h1 where "build (JObj fs0) h = (v, h1)" by (cases "build (JObj fs0) h")
    then show ?thesis using e j unfolding Ref 2 by (rule course_object_refines)
  qed
next
  case Null
  with j e show ?thesis
    by (auto simp: sanitizeCourseForStorage_def JSON_stringify_def sanitize_course_json_def keeps_def)
next
  case (Bool b)
  with j e show ?thesis
    by (auto simp: sanitizeCourseForStorage_def JSON_stringify_def sanitize_course_json_def keeps_def)
next
  case (Num n)
  with j e show ?thesis
    by (auto simp: sanitizeCourseForStorage_def JSON_stringify_def sanitize_course_json_def keeps_def)
next
  case (Str s)
  with j e show ?thesis
    by (auto simp: sanitizeCourseForStorage_def JSON_stringify_def sanitize_course_json_def keeps_def)
qed

lemma sanitize_course_keeps:
  assumes e: "sanitizeCourseForStorage tc h course = (r, h')"
  shows "keeps (length h) h h'"
proof (cases "JSON_stringify h course")
  case None
  with e have "h' = h" by (auto simp: sanitizeCourseForStorage_def split: val.splits)
  then show ?thesis by (simp add: keeps_def)
next
  case (Some j)
  from sanitize_course_refines[OF Some e] show ?thesis by (rule conjunct1)
qed

lemma keeps_take: "keeps (length h) h h' \<Longrightarrow> take (length h) h' = h"
  by (simp add: keeps_def)

text \<open>
  C7. \<open>sanitizeCourseForStorage\<close> never changes an object that existed before the call,
  so the course it was given prints as before. When the course can be printed, the result
  is built from objects allocated during the call only (it shares nothing with the
  argument) and prints as the sanitized value; and for a course whose sections and lessons
  are objects, that value has the fields of the course in the same order with the same
  values, except \<open>description\<close> and \<open>sections\<close>; the sections in the same number and order,
  each with its fields except \<open>description\<close> and \<open>lessons\<close>; the lessons in the same number
  and order, each with its fields except \<open>content\<close> and \<open>description\<close>. In particular
  \<open>id\<close>, \<open>title\<close>, \<open>category\<close>, \<open>difficulty\<close>, \<open>status\<close> and \<open>order\<close> are preserved.
\<close>

theorem sanitizeCourseForStorage_copies:
  "case sanitizeCourseForStorage textContent h course of
     (r, h') \<Rightarrow>
       take (length h) h' = h \<and>
       JSON_stringify h' course = JSON_stringify h course \<and>
       (\<forall>j. JSON_stringify h course = Some j \<longrightarrow>
          reads {length h..<length h'} h' r (sanitize_course_json textContent j) \<and>
          JSON_stringify h' r = Some (sanitize_course_json textContent j) \<and>
          (wf_course j \<longrightarrow> same_course j (sanitize_course_json textContent j)))"
proof -
  obtain r h' where e: "sanitizeCourseForStorage textContent h course = (r, h')"
    by (cases "sanitizeCourseForStorage textContent h course")
  have k: "keeps (length h) h h'" using e by (rule sanitize_course_keeps)
  then have t: "take (length h) h' = h" by (rule keeps_take)
  have s: "JSON_stringify h' course = JSON_stringify h course"
  proof (cases "JSON_stringify h course")
    case None
    with e have "h' = h" by (auto simp: sanitizeCourseForStorage_def split: val.splits)
    then show ?thesis by simp
  next
    case (Some j)
    from stringify_kept[OF Some k] Some show ?thesis by simp
  qed
  have "reads {length h..<length h'} h' r (sanitize_course_json textContent j) \<and>
        JSON_stringify h' r = Some (sanitize_course_json textContent j) \<and>
        (wf_course j \<longrightarrow> same_course j (sanitize_course_json textContent j))"
    if j: "JSON_stringify h course = Some j" for j
  proof -
    from sanitize_course_refines[OF j e]
    have r: "reads {length h..<length h'} h' r (sanitize_course_json textContent j)"
      by (rule conjunct2)
    then have g: "JSON_stringify h' r = Some (sanitize_course_json textContent j)"
      by (rule reads_stringify)
    have "wf_course j \<longrightarrow> same_course j (sanitize_course_json textContent j)"
      by (rule impI) (rule course_same)
    with r g show ?thesis by (intro conjI)
  qed
  then have "\<forall>j. JSON_stringify h course = Some j \<longrightarrow>
          reads {length h..<length h'} h' r (sanitize_course_json textContent j) \<and>
          JSON_stringify h' r = Some (sanitize_course_json textContent j) \<and>
          (wf_course j \<longrightarrow> same_course j (sanitize_course_json textContent j))"
    by (intro allI impI)
  with t s show ?thesis unfolding e prod.case by (intro conjI)
qed

lemma course_heap_json: "JSON_stringify course_heap (Ref 4) = Some course_json"
  by code_simp

lemma course_json_wf: "wf_course course_json"
  by (simp add: wf_course_def wf_section_def is_object_def list_field_all_def course_json_def)

lemma course_json_sanitized: "sanitize_course_json no_dom course_json = sanitized_json"
  by (simp add: sanitize_course_json_def sanitize_section_json_def sanitize_lesson_json_def
      spread_json_def map_field_def strip_field_def strip_json_def course_json_def sanitized_json_def
      stripHtmlTags_def no_dom_def regex_fallback_def trim_def is_space_def chars)

text \<open>
  The statement on the example course.
\<close>

theorem sanitizeCourseForStorage_copies_witness:
  "JSON_stringify course_heap (Ref 4) = Some course_json \<and> wf_course course_json \<and>
   (case sanitizeCourseForStorage no_dom course_heap (Ref 4) of
      (r, h') \<Rightarrow>
        take 5 h' = course_heap \<and>
        JSON_stringify h' (Ref 4) = Some course_json \<and>
        reads {5..<length h'} h' r sanitized_json \<and>
        JSON_stringify h' r = Some sanitized_json \<and>
        same_course course_json sanitized_json)"
proof -
  have l: "length course_heap = 5" by (simp add: course_heap_def)
  from sanitizeCourseForStorage_copies[where textContent = no_dom and h = course_heap and course = "Ref 4"] show ?thesis
    by (simp add: course_heap_json course_json_wf course_json_sanitized l split: prod.splits)
qed

section \<open>Properties of the data migration\<close>

lemma backup_key_other: "backup_key now \<noteq> MIGRATION_VERSION_KEY"
  by (simp add: backup_key_def MIGRATION_VERSION_KEY_def COURSES_STORAGE_KEY_def)

lemma courses_key_other: "COURSES_STORAGE_KEY \<noteq> MIGRATION_VERSION_KEY"
  by (simp add: MIGRATION_VERSION_KEY_def COURSES_STORAGE_KEY_def)

lemma setItem_other:
  assumes "setItem q put st = Inr st'"
    and "\<And>s. entries (put s) K = entries s K" "\<And>s. available (put s) = available s"
  shows "entries st' K = entries st K \<and> available st' = available st"
  using assms by (auto simp: setItem_def split: if_splits)

lemma isMigrationNeeded_cong:
  "entries st' MIGRATION_VERSION_KEY = entries st MIGRATION_VERSION_KEY \<Longrightarrow>
   available st' = available st \<Longrightarrow> isMigrationNeeded st' = isMigrationNeeded st"
  by (simp add: isMigrationNeeded_def getItem_def entry_at_def)

lemma migration_frame:
  assumes "migrateExistingData q textContent now createBackup st = (res, st')" "\<not> success res"
  shows "entries st' MIGRATION_VERSION_KEY = entries st MIGRATION_VERSION_KEY \<and>
         available st' = available st"
  using assms backup_key_other[of now] courses_key_other
  unfolding migrateExistingData_def
  by (auto simp: setItem_def mark_complete_def put_entry_def getItem_def migration_failed_def
      split: sum.splits if_splits option.splits item.splits json.splits prod.splits)

lemma unusable_fails:
  assumes "unusable_payload (entries st COURSES_STORAGE_KEY)"
  shows "\<not> success (fst (migrateExistingData q textContent now createBackup st))"
  using assms unfolding migrateExistingData_def unusable_payload_def
  by (auto simp: getItem_def entry_at_def migration_failed_def
      split: sum.splits if_splits option.splits item.splits json.splits prod.splits)

text \<open>
  C2. When the stored course list is no JSON or is not an array, \<open>migrateExistingData\<close>
  returns a failure; and whenever it returns a failure (also when the storage cannot be
  read, or refuses a write), the version marker is what it was before the call, so
  \<open>isMigrationNeeded\<close> answers after the call what it answered before it: a migration that
  was needed is still needed.
\<close>

theorem migrateExistingData_failure:
  "case migrateExistingData q textContent now createBackup st of
     (res, st') \<Rightarrow>
       (unusable_payload (entries st COURSES_STORAGE_KEY) \<longrightarrow> \<not> success res) \<and>
       (\<not> success res \<longrightarrow>
          entries st' MIGRATION_VERSION_KEY = entries st MIGRATION_VERSION_KEY \<and>
          isMigrationNeeded st' = isMigrationNeeded st)"
proof -
  obtain res st' where e: "migrateExistingData q textContent now createBackup st = (res, st')"
    by (cases "migrateExistingData q textContent now createBackup st")
  have a: "\<not> success res" if "unusable_payload (entries st COURSES_STORAGE_KEY)"
    using unusable_fails[OF that, of q textContent now createBackup] by (simp add: e)
  have b: "entries st' MIGRATION_VERSION_KEY = entries st MIGRATION_VERSION_KEY \<and>
           isMigrationNeeded st' = isMigrationNeeded st" if "\<not> success res"
  proof -
    from migration_frame[OF e that]
    have f: "entries st' MIGRATION_VERSION_KEY = entries st MIGRATION_VERSION_KEY"
      and g: "available st' = available st" by simp_all
    from f g have "isMigrationNeeded st' = isMigrationNeeded st" by (rule isMigrationNeeded_cong)
    with f show ?thesis by (rule conjI)
  qed
  from a b show ?thesis unfolding e prod.case by blast
qed

text \<open>
  The statement on a course list that holds the text \<open>not json\<close>, with no marker written yet.
\<close>

theorem migrateExistingData_failure_witness:
  "unusable_payload (entries corrupted_store COURSES_STORAGE_KEY) \<and>
   isMigrationNeeded corrupted_store \<and>
   (case migrateExistingData unlimited no_dom 1700000000000 True corrupted_store of
      (res, st') \<Rightarrow>
        \<not> success res \<and> entries st' MIGRATION_VERSION_KEY = None \<and> isMigrationNeeded st')"
proof -
  have a: "unusable_payload (entries corrupted_store COURSES_STORAGE_KEY)"
    by (simp add: unusable_payload_def corrupted_store_def)
  have c: "entries corrupted_store MIGRATION_VERSION_KEY = None"
    by (simp add: corrupted_store_def COURSES_STORAGE_KEY_def MIGRATION_VERSION_KEY_def)
  have b: "isMigrationNeeded corrupted_store"
    by (simp add: isMigrationNeeded_def getItem_def entry_at_def c)
  from migrateExistingData_failure[where q = unlimited and textContent = no_dom
      and now = 1700000000000 and createBackup = True and st = corrupted_store] a b c
  show ?thesis by (auto split: prod.splits)
qed

text \<open>
  A migration that succeeds writes the marker; and the example course is migrated.
\<close>

lemma migration_success_marks:
  assumes "migrateExistingData q textContent now createBackup st = (res, st')" "success res"
  shows "\<not> isMigrationNeeded st'"
  using assms unfolding migrateExistingData_def
  by (auto simp: setItem_def mark_complete_def put_entry_def getItem_def migration_failed_def
        isMigrationNeeded_def entry_at_def
      split: sum.splits if_splits option.splits item.splits json.splits prod.splits)

lemma migration_of_a_course:
  "(case migrateExistingData unlimited no_dom 5 True course_store of
      (res, st') \<Rightarrow>
        success res \<and> coursesProcessed res = Some 1 \<and>
        entries st' COURSES_STORAGE_KEY = Some (JsonText (JArr [sanitized_json])) \<and>
        entries st' (backup_key 5) = Some (JsonText (JArr [course_json])) \<and>
        \<not> isMigrationNeeded st')"
  by code_simp

theorem migration_success_marks_witness:
  "success (fst (migrateExistingData unlimited no_dom 5 True course_store)) \<and>
   \<not> isMigrationNeeded (snd (migrateExistingData unlimited no_dom 5 True course_store))"
proof -
  have s: "success (fst (migrateExistingData unlimited no_dom 5 True course_store))"
    by code_simp
  from migration_success_marks[OF prod.collapse[symmetric] s] s show ?thesis by simp
qed

section \<open>Properties of the loaders\<close>

text \<open>
  C3. On a storage whose progress, bookmarks and streak keys hold the text \<open>not json\<close>, the
  loaders of \<open>progressTracking.js\<close> return their defaults and the three keys still hold the
  corrupted text: none of them is deleted, and \<open>updateLearningStreak\<close> gives up on the
  corrupted streak without repairing it, at every call.
\<close>

theorem corrupted_keys_are_kept:
  "loadProgressFromStorage corrupted_store = Map.empty \<and>
   loadBookmarkedCourses corrupted_store = [] \<and>
   getLearningStreak corrupted_store = streak_error \<and>
   updateLearningStreak unlimited ms0 ''Mon Nov 02 2026'' corrupted_store = (streak_error, corrupted_store) \<and>
   course_progress corrupted_store = Some (NotJson ''not json'') \<and>
   course_bookmarks corrupted_store = Some (NotJson ''not json'') \<and>
   learning_streak corrupted_store = Some (NotJson ''not json'')"
  by (simp add: loadProgressFromStorage_def loadBookmarkedCourses_def getLearningStreak_def
      updateLearningStreak_def getItem_def parse_or_def corrupted_store_def)

end
